theory Spec2Isabelle
  imports Main "HOL-Library.AList"
begin

section \<open>Bytes and the string helpers of the Go library\<close>

text \<open>
  Go's \<open>[]byte\<close> and \<open>string\<close> are both sequences of 8-bit bytes; both are modelled as
  \<open>char list\<close> (an Isabelle \<open>char\<close> is one byte).
\<close>

type_synonym bytes = string

abbreviation LF :: char where "LF \<equiv> CHR 0x0A"
abbreviation CR :: char where "CR \<equiv> CHR 0x0D"
abbreviation TAB :: char where "TAB \<equiv> CHR 0x09"
abbreviation SP :: char where "SP \<equiv> CHR 0x20"
abbreviation CRLF :: string where "CRLF \<equiv> [CR, LF]"

definition is_upper :: "char \<Rightarrow> bool" where
  "is_upper c = (let n = (of_char c :: nat) in 65 \<le> n \<and> n \<le> 90)"

definition is_lower :: "char \<Rightarrow> bool" where
  "is_lower c = (let n = (of_char c :: nat) in 97 \<le> n \<and> n \<le> 122)"

text \<open>Adding or subtracting \<open>'a' - 'A' = 32\<close> on an ASCII letter sets or clears bit 5.\<close>

fun with_bit5 :: "bool \<Rightarrow> char \<Rightarrow> char" where
  "with_bit5 b (Char b0 b1 b2 b3 b4 b5 b6 b7) = Char b0 b1 b2 b3 b4 b b6 b7"

definition toLowerByte :: "char \<Rightarrow> char" where
  "toLowerByte c = (if is_upper c then with_bit5 True c else c)"

definition toUpperByte :: "char \<Rightarrow> char" where
  "toUpperByte c = (if is_lower c then with_bit5 False c else c)"

text \<open>\<open>strings.ToLower\<close>, on ASCII input (the only case the model covers).\<close>

definition ToLower :: "string \<Rightarrow> string" where
  "ToLower s = map toLowerByte s"

text \<open>\<open>bytes.TrimRight\<close>, \<open>strings.TrimRight\<close>, \<open>strings.Trim\<close>: drop the bytes of the cutset.\<close>

definition TrimRight :: "string \<Rightarrow> string \<Rightarrow> string" where
  "TrimRight s cutset = rev (dropWhile (\<lambda>c. c \<in> set cutset) (rev s))"

definition TrimLeft :: "string \<Rightarrow> string \<Rightarrow> string" where
  "TrimLeft s cutset = dropWhile (\<lambda>c. c \<in> set cutset) s"

definition Trim :: "string \<Rightarrow> string \<Rightarrow> string" where
  "Trim s cutset = TrimRight (TrimLeft s cutset) cutset"

definition HasPrefix :: "string \<Rightarrow> string \<Rightarrow> bool" where
  "HasPrefix s p = (take (length p) s = p)"

text \<open>\<open>strings.Index\<close>: the first position of \<open>sub\<close> in \<open>s\<close>, or \<open>-1\<close>.\<close>

fun Index_from :: "nat \<Rightarrow> string \<Rightarrow> string \<Rightarrow> int" where
  "Index_from i [] sub = (if sub = [] then int i else - 1)"
| "Index_from i (c # s) sub =
     (if HasPrefix (c # s) sub then int i else Index_from (Suc i) s sub)"

definition Index :: "string \<Rightarrow> string \<Rightarrow> int" where
  "Index s sub = Index_from 0 s sub"

section \<open>Header keys and the header map\<close>

text \<open>
  \<open>validHeaderFieldByte\<close>: the entries of \<open>isTokenTable\<close> that are true, by byte value
  (the punctuation \<open>! # $ % & ' * + - . ^ _ ` | ~\<close>, the digits and the letters).
\<close>

definition validHeaderFieldByte :: "char \<Rightarrow> bool" where
  "validHeaderFieldByte b =
     (let n = (of_char b :: nat) in
        n \<in> {33, 35, 36, 37, 38, 39, 42, 43, 45, 46, 94, 95, 96, 124, 126}
        \<or> (48 \<le> n \<and> n \<le> 57) \<or> (65 \<le> n \<and> n \<le> 90) \<or> (97 \<le> n \<and> n \<le> 122))"

text \<open>The second loop of \<open>canonicalMIMEHeaderKey\<close>; \<open>upper\<close> is its flag.\<close>

fun canon_loop :: "bool \<Rightarrow> string \<Rightarrow> string" where
  "canon_loop upper [] = []"
| "canon_loop upper (c # cs) =
     (let c' = (if upper \<and> is_lower c then with_bit5 False c
                else if \<not> upper \<and> is_upper c then with_bit5 True c
                else c)
      in c' # canon_loop (c' = CHR ''-'') cs)"

text \<open>
  \<open>canonicalMIMEHeaderKey\<close>. The final lookup in \<open>commonHeader\<close> returns an equal string
  and is left out.
\<close>

definition canonicalMIMEHeaderKey :: "string \<Rightarrow> string" where
  "canonicalMIMEHeaderKey a =
     (if \<forall>c \<in> set a. validHeaderFieldByte c then canon_loop True a else a)"

text \<open>The quick check of \<open>CanonicalMIMEHeaderKey\<close> over the bytes still to scan.\<close>

fun canon_scan :: "string \<Rightarrow> bool \<Rightarrow> string \<Rightarrow> string" where
  "canon_scan s upper [] = s"
| "canon_scan s upper (c # cs) =
     (if \<not> validHeaderFieldByte c then s
      else if upper \<and> is_lower c then canonicalMIMEHeaderKey s
      else if \<not> upper \<and> is_upper c then canonicalMIMEHeaderKey s
      else canon_scan s (c = CHR ''-'') cs)"

definition CanonicalMIMEHeaderKey :: "string \<Rightarrow> string" where
  "CanonicalMIMEHeaderKey s = canon_scan s True s"

text \<open>
  \<open>textproto.MIMEHeader\<close> is \<open>map[string][]string\<close>. It is modelled as an association
  list; the order of the list stands for the order in which a \<open>range\<close> over the Go map
  happens to yield its keys, which Go leaves unspecified. A well-formed header has
  distinct keys.
\<close>

type_synonym MIMEHeader = "(string \<times> string list) list"

definition Header_Get :: "MIMEHeader \<Rightarrow> string \<Rightarrow> string" where
  "Header_Get h key =
     (case map_of h (CanonicalMIMEHeaderKey key) of
        None \<Rightarrow> []
      | Some v \<Rightarrow> (case v of [] \<Rightarrow> [] | x # _ \<Rightarrow> x))"

definition Header_Set :: "MIMEHeader \<Rightarrow> string \<Rightarrow> string \<Rightarrow> MIMEHeader" where
  "Header_Set h key val = AList.update (CanonicalMIMEHeaderKey key) [val] h"


section \<open>The message tree\<close>

text \<open>
  \<open>Message\<close> of message.go. The \<open>Parent\<close> back-pointer is never written by the decomposer
  nor read by the builder, and is left out of the tree.
\<close>

datatype error =
    EOF
  | ProtocolError string
  | Panic string
  | External string

datatype Message = Message
  (Header: MIMEHeader)
  (HeaderIsChanged: bool)
  (RawOriginalHeader: bytes)
  (HeaderOrder: "string list")
  (Body: bytes)
  (Parts: "Message list")
  (BodyMessage: "Message option")
  (Boundary: string)
  (Idx: string)
  (IsDecoded: bool)
  (rfc822Depth: int)

text \<open>The zero value \<open>&Message{}\<close>.\<close>

definition empty_Message :: Message where
  "empty_Message = Message [] False [] [] [] [] None [] [] False 0"

definition IsMultipart :: "Message \<Rightarrow> bool" where
  "IsMultipart c = (if length (Parts c) > 0 then True else False)"

definition IsRfc822 :: "Message \<Rightarrow> bool" where
  "IsRfc822 c = (BodyMessage c \<noteq> None)"

subsection \<open>Merge\<close>



section \<open>The builder: headers\<close>

text \<open>
  The first loop of \<open>BuildHeader\<close>, over \<open>HeaderOrder\<close>; the state is the buffer and the
  keys of \<open>alreadyAdded\<close>.
\<close>

definition order_step :: "string \<Rightarrow> MIMEHeader \<Rightarrow> string \<Rightarrow> bytes \<times> string list \<Rightarrow> bytes \<times> string list" where
  "order_step nl h headerCode st =
     (case st of (buff, added) \<Rightarrow>
        (if map_of h (CanonicalMIMEHeaderKey headerCode) \<noteq> None
         then ((if buff \<noteq> [] then buff @ nl else buff) @ headerCode @ '': '' @ Header_Get h headerCode,
               CanonicalMIMEHeaderKey headerCode # added)
         else (buff, added)))"

text \<open>The second loop, over the keys of the map.\<close>

definition rest_step :: "string \<Rightarrow> MIMEHeader \<Rightarrow> string list \<Rightarrow> string \<Rightarrow> bytes \<Rightarrow> bytes" where
  "rest_step nl h added key buff =
     (if key \<in> set added then buff
      else if Header_Get h key = [] then buff
      else (if buff \<noteq> [] then buff @ nl else buff) @ key @ '': '' @ Header_Get h key)"

definition rebuild_header :: "string \<Rightarrow> MIMEHeader \<Rightarrow> string list \<Rightarrow> bytes" where
  "rebuild_header nl h order =
     (case fold (order_step nl h) order ([], []) of
        (buff, added) \<Rightarrow> fold (rest_step nl h added) (map fst h) buff)"

definition BuildHeader :: "string \<Rightarrow> Message \<Rightarrow> bytes" where
  "BuildHeader nl m =
     (if length (RawOriginalHeader m) > 0 \<and> \<not> HeaderIsChanged m
      then TrimRight (RawOriginalHeader m) CRLF
      else rebuild_header nl (Header m) (HeaderOrder m))"

subsection \<open>SetHeaderField\<close>

lemma Index_from_ge: "- 1 \<le> Index_from i s sub"
  by (induction s arbitrary: i) auto

text \<open>The \<open>for\<close> loop of \<open>SetHeaderField\<close> over \<open>remainingPart\<close>.\<close>

function skip_field :: "string \<Rightarrow> string" where
  "skip_field remainingPart =
     (if Index remainingPart [LF] \<noteq> - 1
      then (if Index remainingPart [LF] + 1 > int (length remainingPart) - 1
            then remainingPart
            else (if \<not> HasPrefix (drop (nat (Index remainingPart [LF] + 1)) remainingPart) [SP]
                     \<and> \<not> HasPrefix (drop (nat (Index remainingPart [LF] + 1)) remainingPart) [TAB]
                  then drop (nat (Index remainingPart [LF] + 1)) remainingPart
                  else skip_field (drop (nat (Index remainingPart [LF] + 1)) remainingPart)))
      else remainingPart)"
  by pat_completeness auto
termination
proof (relation "measure length")
  show "wf (measure length)" by simp
next
  fix remainingPart :: string
  assume a: "Index remainingPart [LF] \<noteq> - 1"
    and b: "\<not> int (length remainingPart) - 1 < Index remainingPart [LF] + 1"
  have "- 1 \<le> Index remainingPart [LF]"
    unfolding Index_def by (rule Index_from_ge)
  with a b show "(drop (nat (Index remainingPart [LF] + 1)) remainingPart, remainingPart) \<in> measure length"
    by auto
qed

declare skip_field.simps [simp del]

text \<open>
  The rewrite of the raw header in \<open>SetHeaderField\<close> (the body of the
  \<open>if len(m.RawOriginalHeader) > 0\<close>).
\<close>

definition patch_raw :: "string \<Rightarrow> bytes \<Rightarrow> string \<Rightarrow> string \<Rightarrow> bytes" where
  "patch_raw nl raw field val =
     (let originalHeader = TrimRight raw CRLF;
          idx = Index (ToLower originalHeader) (ToLower field);
          firstPart = (if idx \<noteq> - 1 then take (nat idx) originalHeader else originalHeader);
          remainingPart = (if idx \<noteq> - 1 then skip_field (drop (nat idx) originalHeader) else [])
      in TrimRight firstPart CRLF @ nl @ field @ '': '' @ val @ remainingPart)"

definition SetHeaderField :: "string \<Rightarrow> Message \<Rightarrow> string \<Rightarrow> string \<Rightarrow> Message" where
  "SetHeaderField nl m field val =
     Message (Header_Set (Header m) field val) (HeaderIsChanged m)
       (if length (RawOriginalHeader m) > 0 then patch_raw nl (RawOriginalHeader m) field val
        else RawOriginalHeader m)
       (HeaderOrder m) (Body m) (Parts m) (BodyMessage m) (Boundary m) (Idx m) (IsDecoded m)
       (rfc822Depth m)"

section \<open>The protocol reader\<close>

text \<open>
  The reader works on an in-memory byte source; its state is the input not yet consumed.
  \<open>bufio.Reader.ReadLine\<close> looks for the line feed in its buffer, which holds the next
  \<open>bufSize\<close> bytes (4096, the default of \<open>bufio.NewReader\<close>): a line that does not end
  there is returned in pieces, each with \<open>isPrefix\<close> set; a carriage return at the end of
  a full buffer is put back. At the end of the input a last line without line feed is
  returned as it is, and an empty rest is \<open>io.EOF\<close>.
\<close>

definition bufSize :: nat where
  "bufSize = 4096"

definition ReadLine :: "bytes \<Rightarrow> error + (bytes \<times> bool \<times> bytes)" where
  "ReadLine inp =
     (if LF \<in> set (take bufSize inp)
      then (let line = takeWhile (\<lambda>c. c \<noteq> LF) inp
            in Inr (if line \<noteq> [] \<and> last line = CR then butlast line else line,
                    False, tl (dropWhile (\<lambda>c. c \<noteq> LF) inp)))
      else if bufSize \<le> length inp
      then (if last (take bufSize inp) = CR
            then Inr (butlast (take bufSize inp), True, CR # drop bufSize inp)
            else Inr (take bufSize inp, True, drop bufSize inp))
      else if inp = [] then Inl EOF
      else Inr (inp, False, []))"

lemma ReadLine_more_shorter:
  "ReadLine inp = Inr (l, True, rest) \<Longrightarrow> length rest < length inp"
  by (auto simp: ReadLine_def Let_def bufSize_def split: if_splits)

lemma ReadLine_shorter:
  "ReadLine inp = Inr (l, more, rest) \<Longrightarrow> length rest < length inp"
proof (cases "LF \<in> set (take bufSize inp)")
  case True
  assume r: "ReadLine inp = Inr (l, more, rest)"
  from True have "LF \<in> set inp" by (meson in_set_takeD)
  then have "dropWhile (\<lambda>c. c \<noteq> LF) inp \<noteq> []" by simp
  then have "length (tl (dropWhile (\<lambda>c. c \<noteq> LF) inp)) < length (dropWhile (\<lambda>c. c \<noteq> LF) inp)"
    by (cases "dropWhile (\<lambda>c. c \<noteq> LF) inp") auto
  moreover have "length (dropWhile (\<lambda>c. c \<noteq> LF) inp) \<le> length inp"
    by (rule length_dropWhile_le)
  moreover from r True have "rest = tl (dropWhile (\<lambda>c. c \<noteq> LF) inp)"
    by (simp add: ReadLine_def Let_def)
  ultimately show ?thesis by simp
next
  case False
  assume "ReadLine inp = Inr (l, more, rest)"
  with False show ?thesis
    by (auto simp: ReadLine_def Let_def bufSize_def split: if_splits)
qed

text \<open>
  The loop of \<open>readLineSlice\<close>; \<open>line\<close> and \<open>originalLine\<close> are its two accumulators
  (\<open>nil\<close> is the empty list: a piece returned with \<open>isPrefix\<close> is never empty).
\<close>

function readLineSlice_loop :: "bytes \<Rightarrow> bytes \<Rightarrow> bytes \<Rightarrow> error + (bytes \<times> bytes \<times> bytes)" where
  "readLineSlice_loop line originalLine inp =
     (case ReadLine inp of
        Inl err \<Rightarrow> Inl err
      | Inr (l, more, rest) \<Rightarrow>
          (if line = [] \<and> \<not> more then Inr (l, l, rest)
           else if \<not> more
           then Inr (line @ l,
                     (if length originalLine > 0 then originalLine @ [LF] else originalLine) @ l,
                     rest)
           else readLineSlice_loop (line @ l)
                  ((if length originalLine > 0 then originalLine @ [LF] else originalLine) @ l)
                  rest))"
  by pat_completeness auto
termination
  by (relation "measure (\<lambda>(line, originalLine, inp). length inp)")
     (auto dest: ReadLine_more_shorter)

declare readLineSlice_loop.simps [simp del]

definition readLineSlice :: "bytes \<Rightarrow> error + (bytes \<times> bytes \<times> bytes)" where
  "readLineSlice inp = readLineSlice_loop [] [] inp"

definition is_blank :: "char \<Rightarrow> bool" where
  "is_blank c = (c = SP \<or> c = TAB)"

definition trim :: "bytes \<Rightarrow> bytes" where
  "trim s = rev (dropWhile is_blank (rev (dropWhile is_blank s)))"

definition skipSpace :: "bytes \<Rightarrow> nat \<times> bytes \<times> bytes" where
  "skipSpace inp = (length (takeWhile is_blank inp), takeWhile is_blank inp, dropWhile is_blank inp)"

definition isASCIILetter :: "char \<Rightarrow> bool" where
  "isASCIILetter b = is_lower (with_bit5 True b)"

lemma readLineSlice_loop_shorter:
  "readLineSlice_loop line originalLine inp = Inr (l, ol, rest) \<Longrightarrow> length rest < length inp"
proof (induction line originalLine inp rule: readLineSlice_loop.induct)
  case (1 line originalLine inp)
  show ?case
  proof (cases "ReadLine inp")
    case (Inl e)
    with "1.prems" show ?thesis by (simp add: readLineSlice_loop.simps [of line originalLine inp])
  next
    case (Inr t)
    obtain l0 more rest0 where t: "t = (l0, more, rest0)" by (cases t)
    note R = Inr [unfolded t]
    from R have s: "length rest0 < length inp" by (auto dest: ReadLine_shorter)
    show ?thesis
    proof (cases more)
      case False
      with R "1.prems" s show ?thesis
        by (auto simp: readLineSlice_loop.simps [of line originalLine inp] split: if_splits)
    next
      case True
      with R "1.prems" have
        "readLineSlice_loop (line @ l0)
           ((if length originalLine > 0 then originalLine @ [LF] else originalLine) @ l0) rest0
         = Inr (l, ol, rest)"
        by (simp add: readLineSlice_loop.simps [of line originalLine inp])
      with "1.IH" [OF R refl refl] True have "length rest < length rest0"
        by auto
      with s show ?thesis by simp
    qed
  qed
qed

lemma readLineSlice_shorter:
  "readLineSlice inp = Inr (l, ol, rest) \<Longrightarrow> length rest < length inp"
  unfolding readLineSlice_def by (rule readLineSlice_loop_shorter)

text \<open>
  The loop of \<open>readContinuedLineSlice\<close> over the continuation lines. When the line after
  the skipped blanks cannot be read the input is at its end, and the skipped bytes are not
  added to \<open>originalLine\<close>.
\<close>

function continued_loop :: "bytes \<Rightarrow> bytes \<Rightarrow> bytes \<Rightarrow> bytes \<times> bytes \<times> bytes" where
  "continued_loop buf originalLine inp =
     (case skipSpace inp of
        (no, skipped, inp1) \<Rightarrow>
          (if no \<le> 0 then (buf, originalLine, inp)
           else (case readLineSlice inp1 of
                   Inl err \<Rightarrow> (buf, originalLine, [])
                 | Inr (line, originalLine2, inp2) \<Rightarrow>
                     continued_loop (buf @ [SP] @ trim line)
                       (originalLine @ ([LF] @ skipped) @ originalLine2) inp2)))"
  by pat_completeness auto
termination
proof (relation "measure (\<lambda>(buf, originalLine, inp). length inp)")
  show "wf (measure (\<lambda>(buf, originalLine, inp). length inp))" by simp
next
  fix buf originalLine inp :: bytes and x no y skipped inp1 x2 line ya originalLine2 inp2
  assume "(no, y) = skipSpace inp" "(skipped, inp1) = y"
    and r: "readLineSlice inp1 = Inr x2" "(line, ya) = x2" "(originalLine2, inp2) = ya"
  then have "inp1 = dropWhile is_blank inp" by (simp add: skipSpace_def)
  then have "length inp1 \<le> length inp" by (simp add: length_dropWhile_le)
  moreover from r have "length inp2 < length inp1"
    by (auto dest: readLineSlice_shorter)
  ultimately show "((buf @ [SP] @ trim line, originalLine @ ([LF] @ skipped) @ originalLine2, inp2),
       buf, originalLine, inp) \<in> measure (\<lambda>(buf, originalLine, inp). length inp)"
    by simp
qed

declare continued_loop.simps [simp del]

text \<open>
  \<open>readContinuedLineSlice\<close>: the logical line, the raw bytes read for it, the error and
  the input left. The shortcut taken when the next buffered byte is an ASCII letter
  returns what the loop returns there (lemma \<open>continued_shortcut\<close>), so that the number
  of bytes that happen to be buffered does not matter; the model takes the shortcut
  whenever at least two bytes are left.
\<close>

definition readContinuedLineSlice :: "bytes \<Rightarrow> bytes \<times> bytes \<times> error option \<times> bytes" where
  "readContinuedLineSlice inp =
     (case readLineSlice inp of
        Inl err \<Rightarrow> ([], [], Some err, [])
      | Inr (line, originalLine, rest) \<Rightarrow>
          (if length line = 0 then (line, originalLine, None, rest)
           else if length rest > 1 \<and> isASCIILetter (hd rest)
           then (trim line, originalLine, None, rest)
           else (case continued_loop (trim line) originalLine rest of
                   (buf, originalLine', rest') \<Rightarrow> (buf, originalLine', None, rest'))))"

text \<open>The preview of the offending line that both errors of \<open>ReadMIMEHeader\<close> carry.\<close>

definition errorPreview :: "bytes \<Rightarrow> bytes" where
  "errorPreview line =
     (if length line > 100
      then take 50 line @ (''...'' @ drop (length line - 50) line)
      else line)"

text \<open>\<open>m[key] = append(m[key], value)\<close>.\<close>

definition Header_append :: "MIMEHeader \<Rightarrow> string \<Rightarrow> string \<Rightarrow> MIMEHeader" where
  "Header_append m key val =
     AList.update key ((case map_of m key of None \<Rightarrow> [] | Some vv \<Rightarrow> vv) @ [val]) m"

lemma readContinuedLineSlice_shorter:
  assumes "readContinuedLineSlice inp = (kv, ol, err, rest)" and "kv \<noteq> []"
  shows "length rest < length inp"
proof (cases "readLineSlice inp")
  case (Inl e)
  with assms show ?thesis by (simp add: readContinuedLineSlice_def)
next
  case (Inr t)
  obtain line originalLine rest0 where t: "t = (line, originalLine, rest0)" by (cases t)
  from Inr t have s: "length rest0 < length inp" by (auto dest: readLineSlice_shorter)
  have c: "length (snd (snd (continued_loop b ol' i))) \<le> length i" for b ol' i
  proof (induction b ol' i rule: continued_loop.induct)
    case (1 buf originalLine inp)
    show ?case
    proof (cases "length (takeWhile is_blank inp) \<le> 0")
      case True
      then show ?thesis
        by (simp add: continued_loop.simps [of buf originalLine inp] skipSpace_def)
    next
      case False
      show ?thesis
      proof (cases "readLineSlice (dropWhile is_blank inp)")
        case (Inl e)
        with False show ?thesis
          by (simp add: continued_loop.simps [of buf originalLine inp] skipSpace_def)
      next
        case (Inr u)
        obtain l2 o2 i2 where u: "u = (l2, o2, i2)" by (cases u)
        note R = Inr [unfolded u]
        from R have "length i2 < length (dropWhile is_blank inp)"
          by (auto dest: readLineSlice_shorter)
        then have "length i2 \<le> length inp"
          using length_dropWhile_le [of is_blank inp] by simp
        moreover have "length (snd (snd (continued_loop (buf @ [SP] @ trim l2)
            (originalLine @ ([LF] @ takeWhile is_blank inp) @ o2) i2))) \<le> length i2"
          by (rule "1.IH" [OF skipSpace_def [symmetric] refl False R refl refl])
        ultimately show ?thesis
          using False R
          by (simp add: continued_loop.simps [of buf originalLine inp] skipSpace_def)
      qed
    qed
  qed
  from assms Inr t s c [of "trim line" originalLine rest0] show ?thesis
    by (auto simp: readContinuedLineSlice_def split: if_splits prod.splits)
qed

subsection \<open>ReadMIMEHeader\<close>

definition join_line :: "bytes \<Rightarrow> bytes \<Rightarrow> bytes" where
  "join_line originalHeader originalLine =
     (if length originalHeader > 0 then originalHeader @ [LF] else originalHeader) @ originalLine"

text \<open>The key \<open>kv[:endKey]\<close> (blanks before the colon removed) and the value \<open>kv[i:]\<close>.\<close>

definition header_key :: "bytes \<Rightarrow> bytes" where
  "header_key kv = rev (dropWhile (\<lambda>c. c = SP) (rev (takeWhile (\<lambda>c. c \<noteq> CHR '':'') kv)))"

definition header_value :: "bytes \<Rightarrow> bytes" where
  "header_value kv = dropWhile is_blank (tl (dropWhile (\<lambda>c. c \<noteq> CHR '':'') kv))"

text \<open>
  The \<open>for\<close> loop of \<open>ReadMIMEHeader\<close>. The result is the header map, the raw header,
  the error (\<open>None\<close> for \<open>nil\<close>) and the input left for the body.
\<close>

function header_loop :: "MIMEHeader \<Rightarrow> bytes \<Rightarrow> bytes \<Rightarrow> MIMEHeader \<times> bytes \<times> error option \<times> bytes" where
  "header_loop m originalHeader inp =
     (case readContinuedLineSlice inp of
        (kv, originalLine, err, rest) \<Rightarrow>
          (if length kv = 0 then (m, join_line originalHeader originalLine, err, rest)
           else if CHR '':'' \<notin> set kv
           then (m, join_line originalHeader originalLine,
                 Some (ProtocolError (''malformed MIME header line: '' @ errorPreview kv)), rest)
           else if canonicalMIMEHeaderKey (header_key kv) = []
           then header_loop m (join_line originalHeader originalLine) rest
           else if err \<noteq> None
           then (Header_append m (canonicalMIMEHeaderKey (header_key kv)) (header_value kv),
                 join_line originalHeader originalLine, err, rest)
           else header_loop
                  (Header_append m (canonicalMIMEHeaderKey (header_key kv)) (header_value kv))
                  (join_line originalHeader originalLine) rest))"
  by pat_completeness auto
termination
  apply (relation "measure (\<lambda>(m, originalHeader, inp). length inp)")
    apply simp
   apply (metis (no_types, lifting) readContinuedLineSlice_shorter in_measure case_prod_conv
      length_0_conv)
  apply (metis (no_types, lifting) readContinuedLineSlice_shorter in_measure case_prod_conv
      length_0_conv)
  done

declare header_loop.simps [simp del]

text \<open>
  \<open>ReadMIMEHeader\<close>. The size hint of \<open>upcomingHeaderNewlines\<close> only sizes allocations.
  \<open>Peek(1)\<close> succeeds when a byte is left.
\<close>

definition ReadMIMEHeader :: "bytes \<Rightarrow> MIMEHeader \<times> bytes \<times> error option \<times> bytes" where
  "ReadMIMEHeader inp =
     (if inp \<noteq> [] \<and> (hd inp = SP \<or> hd inp = TAB)
      then (case readLineSlice inp of
              Inl err \<Rightarrow> ([], [], Some err, [])
            | Inr (line, originalLine, rest) \<Rightarrow>
                ([], [], Some (ProtocolError (''malformed MIME header initial line: '' @ errorPreview line)),
                 rest))
      else header_loop [] [] inp)"

subsection \<open>SetOriginalHeaderOrder\<close>

text \<open>
  The loop of \<open>SetOriginalHeaderOrder\<close> over a fresh \<open>bufio.Reader\<close> on the raw header;
  it ignores \<open>isPrefix\<close>. \<open>strings.Split(line, ":")[0]\<close> is the text before the first
  colon.
\<close>

definition Split_first :: "string \<Rightarrow> string" where
  "Split_first lineString = takeWhile (\<lambda>c. c \<noteq> CHR '':'') lineString"

function order_loop :: "string list \<Rightarrow> bytes \<Rightarrow> bytes \<Rightarrow> string list \<times> bytes" where
  "order_loop headerOrder raw inp =
     (case ReadLine inp of
        Inl err \<Rightarrow> (headerOrder, raw)
      | Inr (lineByte, isPrefix, rest) \<Rightarrow>
          (if length lineByte > 0
           then order_loop
                  (if \<not> HasPrefix (Split_first lineByte) [SP] \<and> \<not> HasPrefix (Split_first lineByte) [TAB]
                   then headerOrder @ [Trim (Split_first lineByte) []]
                   else headerOrder)
                  ((if length raw > 0 then raw @ [LF] else raw) @ lineByte)
                  rest
           else (headerOrder, raw)))"
  by pat_completeness auto
termination
  by (relation "measure (\<lambda>(headerOrder, raw, inp). length inp)")
     (auto dest: ReadLine_shorter)

declare order_loop.simps [simp del]

definition SetOriginalHeaderOrder :: "Message \<Rightarrow> bytes \<Rightarrow> Message" where
  "SetOriginalHeaderOrder c body =
     (case order_loop [] (RawOriginalHeader c) body of
        (headerOrder, raw) \<Rightarrow>
          Message (Header c) (HeaderIsChanged c) raw headerOrder (Body c) (Parts c)
            (BodyMessage c) (Boundary c) (Idx c) (IsDecoded c) (rfc822Depth c))"

section \<open>The collaborators outside the repository's files\<close>

text \<open>
  A byte source handed over as an \<open>io.Reader\<close>: the bytes it yields and the error that
  ends it (\<open>None\<close> for the regular \<open>io.EOF\<close>).
\<close>

type_synonym reader = "bytes \<times> error option"

text \<open>What one successful \<open>NextPart\<close> of the multipart scanner returns.\<close>

record part =
  part_Header :: MIMEHeader
  part_RawOriginalHeader :: bytes
  part_Body :: reader

text \<open>
  The functions the code calls and whose text is not among the repository's files are
  parameters of the model:
  \<^item> \<open>ParseMediaType\<close>: \<open>mime.ParseMediaType\<close> (media type, parameters, error);
  \<^item> \<open>NextParts\<close>: the multipart scanner on a body and a boundary, as the parts its
    successive \<open>NextPart\<close> calls return and the error of the call after the last part
    (\<open>EOF\<close> at the regular end);
  \<^item> \<open>base64_Encode\<close>, \<open>base64_Decode\<close>: \<open>base64.StdEncoding\<close>;
  \<^item> \<open>qp_Write\<close>: the bytes a \<open>quotedprintable.Writer\<close> emits for one \<open>Write\<close> and
    \<open>Close\<close>; \<open>qp_Read\<close>: reading a \<open>quotedprintable.Reader\<close> to its end;
  \<^item> \<open>rand_Boundary\<close>: the value of the \<open>n\<close>-th call of \<open>RandomBoundary\<close>.
\<close>

record env =
  ParseMediaType :: "string \<Rightarrow> string \<times> (string \<times> string) list \<times> error option"
  NextParts :: "reader \<Rightarrow> string \<Rightarrow> part list \<times> error"
  base64_Encode :: "bytes \<Rightarrow> bytes"
  base64_Decode :: "bytes \<Rightarrow> error + bytes"
  qp_Write :: "bytes \<Rightarrow> bytes"
  qp_Read :: "bytes \<Rightarrow> error + bytes"
  rand_Boundary :: "nat \<Rightarrow> string"

section \<open>The content-encoding codec (utils.go)\<close>

text \<open>
  The loop of \<open>StringBreakLines\<close>: \<open>b\<close> is the builder, \<open>startIdx\<close> the loop variable.
  With \<open>charsNo = 0\<close> and data left the Go loop never stops; \<open>StringBreakLines\<close> is
  \<open>None\<close> there.
\<close>

function break_loop :: "string \<Rightarrow> nat \<Rightarrow> string \<Rightarrow> nat \<Rightarrow> string \<Rightarrow> string" where
  "break_loop data charsNo lineSeparator startIdx b =
     (if startIdx + charsNo \<ge> length data \<or> charsNo = 0
      then (if startIdx > 0 then b @ lineSeparator else b)
             @ take (min (startIdx + charsNo) (length data) - startIdx) (drop startIdx data)
      else break_loop data charsNo lineSeparator (startIdx + charsNo)
             ((if startIdx > 0 then b @ lineSeparator else b)
                @ take (min (startIdx + charsNo) (length data) - startIdx) (drop startIdx data)))"
  by pat_completeness auto
termination
  by (relation "measure (\<lambda>(data, charsNo, lineSeparator, startIdx, b). length data - startIdx)")
     auto

declare break_loop.simps [simp del]

definition StringBreakLines :: "string \<Rightarrow> nat \<Rightarrow> string \<Rightarrow> string option" where
  "StringBreakLines data charsNo lineSeparator =
     (if charsNo = 0 \<and> data \<noteq> [] then None
      else Some (break_loop data charsNo lineSeparator 0 []))"

definition ByteBreakLines :: "bytes \<Rightarrow> nat \<Rightarrow> string \<Rightarrow> bytes option" where
  "ByteBreakLines data charsNo lineSeparator = StringBreakLines data charsNo lineSeparator"

text \<open>
  \<open>EncodeByContentEncoding\<close>. In the quoted-printable case the writer writes into
  \<open>bytes.NewBuffer(body)\<close>, a buffer whose initial content is \<open>body\<close>, so what it writes
  comes after the body itself.
\<close>

definition EncodeByContentEncoding :: "env \<Rightarrow> bytes \<Rightarrow> string \<Rightarrow> bytes" where
  "EncodeByContentEncoding E body encoding =
     (if encoding = ''base64''
      then (case ByteBreakLines (base64_Encode E body) 76 [LF] of
              Some r \<Rightarrow> r
            | None \<Rightarrow> [])
      else if encoding = ''quoted-printable''
      then body @ qp_Write E body
      else body)"

definition DecodeByContentEncoding :: "env \<Rightarrow> bytes \<Rightarrow> string \<Rightarrow> error + (bytes \<times> bool)" where
  "DecodeByContentEncoding E body encoding =
     (if encoding = ''base64''
      then (case base64_Decode E (Trim body [CR, LF, TAB]) of
              Inl err \<Rightarrow> Inl err
            | Inr data \<Rightarrow> Inr (data, True))
      else if encoding = ''quoted-printable''
      then (case qp_Read E body of
              Inl err \<Rightarrow> Inl err
            | Inr data \<Rightarrow> Inr (data, True))
      else Inr (body, False))"

section \<open>The decomposer\<close>

definition ReadMessage :: "bytes \<Rightarrow> error \<times> bytes + (MIMEHeader \<times> bytes) \<times> bytes" where
  "ReadMessage r =
     (case ReadMIMEHeader r of
        (hdr, rawOriginalHeader, err, rest) \<Rightarrow>
          (case err of
             Some e \<Rightarrow> Inl (e, rawOriginalHeader)
           | None \<Rightarrow> Inr ((hdr, rest), rawOriginalHeader)))"

definition ExtractBoundary :: "env \<Rightarrow> MIMEHeader \<Rightarrow> string \<times> error option" where
  "ExtractBoundary E header =
     (case ParseMediaType E (Header_Get header ''Content-Type'') of
        (mediatype, params, err) \<Rightarrow>
          (case map_of params ''boundary'' of
             Some boundary \<Rightarrow> (boundary, None)
           | None \<Rightarrow> ([], err)))"

definition ReadAll :: "reader \<Rightarrow> error + bytes" where
  "ReadAll r = (case snd r of None \<Rightarrow> Inr (fst r) | Some err \<Rightarrow> Inl err)"

text \<open>\<open>strconv.FormatInt(idx, 10)\<close> for the positive part numbers.\<close>

function FormatInt :: "nat \<Rightarrow> string" where
  "FormatInt n =
     (if n < 10 then [char_of (48 + n)] else FormatInt (n div 10) @ [char_of (48 + n mod 10)])"
  by pat_completeness auto
termination
  by (relation "measure id") auto

declare FormatInt.simps [simp del]

text \<open>Assignments to the fields of a message.\<close>

definition set_Boundary :: "string \<Rightarrow> Message \<Rightarrow> Message" where
  "set_Boundary b m =
     Message (Header m) (HeaderIsChanged m) (RawOriginalHeader m) (HeaderOrder m) (Body m)
       (Parts m) (BodyMessage m) b (Idx m) (IsDecoded m) (rfc822Depth m)"

definition set_Body :: "bytes \<Rightarrow> Message \<Rightarrow> Message" where
  "set_Body b m =
     Message (Header m) (HeaderIsChanged m) (RawOriginalHeader m) (HeaderOrder m) b
       (Parts m) (BodyMessage m) (Boundary m) (Idx m) (IsDecoded m) (rfc822Depth m)"

definition set_Parts :: "Message list \<Rightarrow> Message \<Rightarrow> Message" where
  "set_Parts ps m =
     Message (Header m) (HeaderIsChanged m) (RawOriginalHeader m) (HeaderOrder m) (Body m)
       ps (BodyMessage m) (Boundary m) (Idx m) (IsDecoded m) (rfc822Depth m)"

definition set_BodyMessage :: "Message option \<Rightarrow> Message \<Rightarrow> Message" where
  "set_BodyMessage bm m =
     Message (Header m) (HeaderIsChanged m) (RawOriginalHeader m) (HeaderOrder m) (Body m)
       (Parts m) bm (Boundary m) (Idx m) (IsDecoded m) (rfc822Depth m)"

definition set_IsDecoded :: "bool \<Rightarrow> Message \<Rightarrow> Message" where
  "set_IsDecoded d m =
     Message (Header m) (HeaderIsChanged m) (RawOriginalHeader m) (HeaderOrder m) (Body m)
       (Parts m) (BodyMessage m) (Boundary m) (Idx m) d (rfc822Depth m)"

definition set_rfc822Depth :: "int \<Rightarrow> Message \<Rightarrow> Message" where
  "set_rfc822Depth d m =
     Message (Header m) (HeaderIsChanged m) (RawOriginalHeader m) (HeaderOrder m) (Body m)
       (Parts m) (BodyMessage m) (Boundary m) (Idx m) (IsDecoded m) d"

text \<open>The message a part starts as in the loop of \<open>ReadParts\<close>.\<close>

definition newPartEmail :: "Message \<Rightarrow> part \<Rightarrow> nat \<Rightarrow> Message" where
  "newPartEmail result p idx =
     Message (part_Header p) False (part_RawOriginalHeader p) [] [] [] None []
       ((if Idx result \<noteq> [] then Idx result @ ''-'' else Idx result) @ FormatInt idx)
       False (rfc822Depth result)"

text \<open>The test that opens the attempt to read the body as a nested message.\<close>

definition wants_unwrap :: "Message \<Rightarrow> bool" where
  "wants_unwrap result =
     (HasPrefix (Trim (Header_Get (Header result) ''Content-Type'') [SP, TAB]) ''message/rfc822''
      \<and> rfc822Depth result < 5)"

text \<open>
  \<open>Decompose\<close> and \<open>ReadParts\<close> call each other, and the depth of multipart nesting has no
  bound in the code: the recursion runs on fuel, and \<open>None\<close> says that the fuel ran out
  (it is never taken for an error of the code, so it is never swallowed). \<open>ReadParts\<close>
  returns the message it was given with its fields assigned. \<open>parts_loop\<close> is the
  \<open>for\<close> loop over the parts; \<open>idx\<close> is the number of the parts read so far.
\<close>

fun Decompose :: "env \<Rightarrow> nat \<Rightarrow> bytes \<Rightarrow> string \<Rightarrow> (error + Message) option"
  and ReadParts :: "env \<Rightarrow> nat \<Rightarrow> Message \<Rightarrow> reader \<Rightarrow> (error + Message) option"
  and parts_loop :: "env \<Rightarrow> nat \<Rightarrow> Message \<Rightarrow> nat \<Rightarrow> part list \<Rightarrow> error \<Rightarrow> (error + Message) option"
where
  "Decompose E 0 rawMessage partIdx = None"
| "Decompose E (Suc n) rawMessage partIdx =
     (case ReadMessage rawMessage of
        Inl (err, originalHeader) \<Rightarrow> Some (Inl err)
      | Inr ((hdr, body), originalHeader) \<Rightarrow>
          ReadParts E n
            (SetOriginalHeaderOrder
               (Message hdr False [] [] [] [] None [] partIdx False 0) originalHeader)
            (body, None))"
| "ReadParts E n result bodyReader =
     (if fst (ExtractBoundary E (Header result)) \<noteq> []
      then (case NextParts E bodyReader (fst (ExtractBoundary E (Header result))) of
              (ps, final) \<Rightarrow>
                parts_loop E n (set_Boundary (fst (ExtractBoundary E (Header result))) result)
                  0 ps final)
      else (case ReadAll bodyReader of
              Inl err \<Rightarrow> Some (Inl err)
            | Inr rawPartBody \<Rightarrow>
                (if wants_unwrap result
                 then (case DecodeByContentEncoding E rawPartBody
                              (Header_Get (Header result) ''Content-Transfer-Encoding'') of
                         Inl err \<Rightarrow> Some (Inr (set_Body rawPartBody result))
                       | Inr (decodedBody, isDecoded) \<Rightarrow>
                           (case Decompose E n decodedBody (Idx result @ ''-0'') of
                              None \<Rightarrow> None
                            | Some (Inl err) \<Rightarrow> Some (Inr (set_Body rawPartBody result))
                            | Some (Inr newMessage) \<Rightarrow>
                                Some (Inr (set_IsDecoded isDecoded
                                  (set_BodyMessage
                                     (Some (set_rfc822Depth (rfc822Depth result + 1) newMessage))
                                     result)))))
                 else Some (Inr (set_Body rawPartBody result)))))"
| "parts_loop E n result idx [] final =
     (if final = EOF then Some (Inr result) else Some (Inl final))"
| "parts_loop E 0 result idx (p # ps) final = None"
| "parts_loop E (Suc n) result idx (p # ps) final =
     (case ReadParts E n (newPartEmail result p (Suc idx)) (part_Body p) of
        None \<Rightarrow> None
      | Some (Inl err) \<Rightarrow> Some (Inl err)
      | Some (Inr newPart) \<Rightarrow>
          parts_loop E (Suc n) (set_Parts (Parts result @ [newPart]) result) (Suc idx) ps final)"

declare ReadParts.simps [simp del]

section \<open>The builder: bodies\<close>

text \<open>
  \<open>Build\<close> and \<open>BuildBody\<close>. \<open>BuildBody\<close> assigns a random boundary to a multipart
  message that has none, so both return the message as they leave it, besides the bytes;
  the state \<open>r\<close> counts the calls of \<open>RandomBoundary\<close> so far. \<open>build_parts\<close> is the
  \<open>for\<close> loop over the parts, \<open>idx\<close> its index.
\<close>

fun Build :: "env \<Rightarrow> string \<Rightarrow> Message \<Rightarrow> nat \<Rightarrow> bytes \<times> Message \<times> nat"
  and BuildBody :: "env \<Rightarrow> string \<Rightarrow> Message \<Rightarrow> nat \<Rightarrow> bytes \<times> Message \<times> nat"
  and build_parts :: "env \<Rightarrow> string \<Rightarrow> string \<Rightarrow> nat \<Rightarrow> Message list \<Rightarrow> nat \<Rightarrow> bytes \<times> Message list \<times> nat"
where
  "Build E nl (Message h ch raw ord body ps bm bnd idx dec depth) r =
     (case BuildBody E nl (Message h ch raw ord body ps bm bnd idx dec depth) r of
        (b, m', r') \<Rightarrow>
          (BuildHeader nl (Message h ch raw ord body ps bm bnd idx dec depth) @ (nl @ nl)
             @ (if dec then EncodeByContentEncoding E b (Header_Get h ''Content-Transfer-Encoding'')
                else b),
           m', r'))"
| "BuildBody E nl (Message h ch raw ord body ps bm bnd idx dec depth) r =
     (case (case bm of
              Some sub \<Rightarrow> (case Build E nl sub r of (b, sub', r') \<Rightarrow> (b, Some sub', r'))
            | None \<Rightarrow> (if length body > 0 then body else [], None, r)) of
        (buff, bm', r1) \<Rightarrow>
          (if length ps > 0
           then (case (if bnd = [] then (rand_Boundary E r1, Suc r1) else (bnd, r1)) of
                   (bnd', r2) \<Rightarrow>
                     (case build_parts E nl bnd' 0 ps r2 of
                        (pb, ps', r3) \<Rightarrow>
                          (buff @ pb @ (nl @ ''--'' @ bnd' @ ''--'' @ nl),
                           Message h ch raw ord body ps' bm' bnd' idx dec depth, r3)))
           else (buff, Message h ch raw ord body ps bm' bnd idx dec depth, r1)))"
| "build_parts E nl bnd idx [] r = ([], [], r)"
| "build_parts E nl bnd idx (p # ps) r =
     (case Build E nl p r of
        (b, p', r1) \<Rightarrow>
          (case build_parts E nl bnd (Suc idx) ps r1 of
             (bs, ps', r2) \<Rightarrow>
               ((if idx > 0 then nl else []) @ (nl @ ''--'' @ bnd @ nl) @ b @ bs, p' # ps', r2)))"

section \<open>Examples\<close>

text \<open>
  An environment for evaluating examples: no media type carries parameters, the scanner
  finds no part, the codecs pass the bytes through.
\<close>

definition bare_env :: env where
  "bare_env =
     \<lparr>ParseMediaType = (\<lambda>v. (v, [], None)),
      NextParts = (\<lambda>r b. ([], EOF)),
      base64_Encode = (\<lambda>b. b),
      base64_Decode = (\<lambda>b. Inr b),
      qp_Write = (\<lambda>b. b),
      qp_Read = (\<lambda>b. Inr b),
      rand_Boundary = (\<lambda>n. ''boundary'' @ FormatInt n)\<rparr>"

text \<open>A message as decomposition leaves it for the raw header \<open>A: 1\r\nB: 2\r\n\<close>.\<close>

definition msg_AB :: Message where
  "msg_AB = Message [(''A'', [''1'']), (''B'', [''2''])] False (''A: 1'' @ CRLF @ ''B: 2'' @ CRLF)
     [''A'', ''B''] ''hello'' [] None [] [] False 0"



section \<open>Merge and the header of a merged message\<close>









section \<open>SetHeaderField on the raw header\<close>

text \<open>
  C3. For the raw header \<open>A: 1\r\nB: 2\r\n\<close>, \<open>SetHeaderField\<close> of \<open>A\<close> to \<open>9\<close> leaves
  the header map \<open>{A: 9, B: 2}\<close>; the patched raw header is the line terminator, then
  \<open>A: 9\<close>, then \<open>B: 2\<close> with nothing between the two fields. It is not \<open>B: 2\<close>, the
  terminator, \<open>A: 9\<close>.
\<close>

theorem SetHeaderField_joins_fields:
  "Header (SetHeaderField CRLF msg_AB ''A'' ''9'') = [(''A'', [''9'']), (''B'', [''2''])]
   \<and> RawOriginalHeader (SetHeaderField CRLF msg_AB ''A'' ''9'') = CRLF @ ''A: 9B: 2''
   \<and> RawOriginalHeader (SetHeaderField CRLF msg_AB ''A'' ''9'') \<noteq> ''B: 2'' @ CRLF @ ''A: 9''"
  by (simp add: msg_AB_def SetHeaderField_def patch_raw_def skip_field.simps TrimRight_def
      Index_def HasPrefix_def ToLower_def toLowerByte_def is_upper_def is_lower_def Header_Set_def
      CanonicalMIMEHeaderKey_def validHeaderFieldByte_def)

section \<open>A header block, line by line\<close>

text \<open>
  The vocabulary for stating what the reader does on a header block. A line (without its
  terminator) is \<open>line_ok\<close> when it holds no line feed, fits the buffer of \<open>ReadLine\<close>
  together with its terminator, and does not end in a carriage return; a terminator is a
  line feed or a carriage return and a line feed. \<open>wire\<close> writes lines with their
  terminators one after the other.
\<close>

definition line_ok :: "bytes \<Rightarrow> bool" where
  "line_ok l = (LF \<notin> set l \<and> length l + 2 \<le> bufSize \<and> (l = [] \<or> last l \<noteq> CR))"

definition is_eol :: "bytes \<Rightarrow> bool" where
  "is_eol t = (t = [LF] \<or> t = CRLF)"

definition blank_start :: "bytes \<Rightarrow> bool" where
  "blank_start l = (l \<noteq> [] \<and> is_blank (hd l))"

definition wire :: "(bytes \<times> bytes) list \<Rightarrow> bytes" where
  "wire lts = concat (map (\<lambda>(l, t). l @ t) lts)"

lemma wire_simps [simp]: "wire [] = []" "wire ((l, t) # lts) = l @ t @ wire lts"
  by (simp_all add: wire_def)

lemma wire_append [simp]: "wire (xs @ ys) = wire xs @ wire ys"
  by (simp add: wire_def)

lemma LF_in_take:
  assumes "length l < n"
  shows "LF \<in> set (take n (l @ LF # rest))"
proof -
  have "take n (l @ LF # rest) = l @ take (n - length l) (LF # rest)" using assms by simp
  moreover from assms obtain k where "n - length l = Suc k" by (cases "n - length l") auto
  ultimately show ?thesis by simp
qed

lemma ReadLine_LF:
  assumes "LF \<notin> set l" and "length l < bufSize"
  shows "ReadLine (l @ LF # rest) =
     Inr (if l \<noteq> [] \<and> last l = CR then butlast l else l, False, rest)"
proof -
  have a: "LF \<in> set (take bufSize (l @ LF # rest))" using assms(2) by (rule LF_in_take)
  have b: "takeWhile (\<lambda>c. c \<noteq> LF) (l @ LF # rest) = l" using assms(1)
    by (induction l) auto
  have c: "dropWhile (\<lambda>c. c \<noteq> LF) (l @ LF # rest) = LF # rest" using assms(1)
    by (induction l) auto
  show ?thesis unfolding ReadLine_def using a by (simp add: b c Let_def)
qed

lemma ReadLine_line:
  assumes "line_ok l" and "is_eol t"
  shows "ReadLine (l @ t @ rest) = Inr (l, False, rest)"
proof (cases "t = [LF]")
  case True
  from assms(1) have "LF \<notin> set l" "length l < bufSize" "l = [] \<or> last l \<noteq> CR"
    by (auto simp: line_ok_def)
  with ReadLine_LF [of l rest] True show ?thesis by auto
next
  case False
  with assms(2) have t: "t = CRLF" by (simp add: is_eol_def)
  from assms(1) have "LF \<notin> set (l @ [CR])" "length (l @ [CR]) < bufSize"
    by (auto simp: line_ok_def)
  from ReadLine_LF [OF this, of rest] t show ?thesis by simp
qed

lemma readLineSlice_line:
  assumes "line_ok l" and "is_eol t"
  shows "readLineSlice (l @ t @ rest) = Inr (l, l, rest)"
  by (simp add: readLineSlice_def readLineSlice_loop.simps [of "[]" "[]"] ReadLine_line [OF assms])

lemma readLineSlice_Nil: "readLineSlice [] = Inl EOF"
  by (simp add: readLineSlice_def readLineSlice_loop.simps [of "[]" "[]"] ReadLine_def bufSize_def)

lemma is_eol_not_blank: "is_eol t \<Longrightarrow> \<not> blank_start (t @ rest)"
  by (auto simp: is_eol_def blank_start_def is_blank_def)

lemma continued_loop_stop:
  "\<not> blank_start inp \<Longrightarrow> continued_loop buf ol inp = (buf, ol, inp)"
  by (cases inp) (auto simp: continued_loop.simps [of buf ol] skipSpace_def blank_start_def)

lemma line_ok_dropWhile: "line_ok c \<Longrightarrow> line_ok (dropWhile P c)"
proof (cases "dropWhile P c = []")
  case True
  show ?thesis unfolding line_ok_def True by (simp add: bufSize_def)
next
  case False
  assume a: "line_ok c"
  have s: "set (dropWhile P c) \<subseteq> set c" by (rule set_dropWhileD [THEN subsetI])
  have l: "length (dropWhile P c) \<le> length c" by (rule length_dropWhile_le)
  from False have "last (dropWhile P c) = last c"
    by (metis last_appendR takeWhile_dropWhile_id)
  moreover from False have "c \<noteq> []" by auto
  ultimately show ?thesis using a s l by (auto simp: line_ok_def)
qed

lemma continued_loop_step:
  assumes "blank_start c" and "line_ok c" and "is_eol t"
  shows "continued_loop buf ol (c @ t @ rest) =
     continued_loop (buf @ [SP] @ trim (dropWhile is_blank c)) (ol @ [LF] @ c) rest"
proof -
  from assms(3) have nb: "\<not> is_blank (hd (t @ rest))" "t @ rest \<noteq> []"
    by (auto simp: is_eol_def is_blank_def)
  have tw: "takeWhile is_blank (c @ t @ rest) = takeWhile is_blank c"
  proof (cases "\<forall>x \<in> set c. is_blank x")
    case True
    then have a: "takeWhile is_blank (c @ t @ rest) = c @ takeWhile is_blank (t @ rest)"
      by (simp add: takeWhile_append2)
    from nb have b: "takeWhile is_blank (t @ rest) = []" by (cases "t @ rest") auto
    from True have e: "takeWhile is_blank c = c" by (simp add: takeWhile_eq_all_conv)
    show ?thesis unfolding a b e by simp
  next
    case False
    then obtain x where "x \<in> set c" "\<not> is_blank x" by blast
    then show ?thesis by (simp add: takeWhile_append1)
  qed
  have dw: "dropWhile is_blank (c @ t @ rest) = dropWhile is_blank c @ t @ rest"
  proof -
    have "takeWhile is_blank (c @ t @ rest) @ dropWhile is_blank (c @ t @ rest) = c @ t @ rest"
      by (rule takeWhile_dropWhile_id)
    moreover have "takeWhile is_blank c @ dropWhile is_blank c = c" by (rule takeWhile_dropWhile_id)
    ultimately show ?thesis using tw
      by (metis append.assoc same_append_eq)
  qed
  from assms(1) have ne: "takeWhile is_blank c \<noteq> []"
    by (cases c) (auto simp: blank_start_def)
  have rl: "readLineSlice (dropWhile is_blank c @ t @ rest) =
      Inr (dropWhile is_blank c, dropWhile is_blank c, rest)"
    by (rule readLineSlice_line [OF line_ok_dropWhile [OF assms(2)] assms(3)])
  show ?thesis
    using ne by (simp add: continued_loop.simps [of buf ol "c @ t @ rest"] skipSpace_def tw dw rl)
qed

text \<open>
  The logical line \<open>readContinuedLineSlice\<close> folds from a line and its continuation
  lines, and the raw bytes it keeps for them.
\<close>

definition folded :: "bytes \<Rightarrow> bytes list \<Rightarrow> bytes" where
  "folded buf cs = foldl (\<lambda>b c. b @ [SP] @ trim (dropWhile is_blank c)) buf cs"

definition raw_lines :: "bytes \<Rightarrow> bytes list \<Rightarrow> bytes" where
  "raw_lines ol cs = ol @ concat (map (\<lambda>c. LF # c) cs)"

lemma continued_loop_lines:
  assumes "\<forall>(c, t) \<in> set cts. blank_start c \<and> line_ok c \<and> is_eol t" and "\<not> blank_start rest"
  shows "continued_loop buf ol (wire cts @ rest) =
     (folded buf (map fst cts), raw_lines ol (map fst cts), rest)"
  using assms(1)
proof (induction cts arbitrary: buf ol)
  case Nil
  with assms(2) show ?case by (simp add: continued_loop_stop folded_def raw_lines_def)
next
  case (Cons a cts)
  obtain c t where a: "a = (c, t)" by (cases a)
  from Cons.prems a have c: "blank_start c" "line_ok c" "is_eol t" by auto
  from Cons.prems have r: "\<forall>(c, t) \<in> set cts. blank_start c \<and> line_ok c \<and> is_eol t" by simp
  have "continued_loop buf ol (wire (a # cts) @ rest) =
      continued_loop (buf @ [SP] @ trim (dropWhile is_blank c)) (ol @ [LF] @ c) (wire cts @ rest)"
    using continued_loop_step [OF c, of buf ol "wire cts @ rest"] by (simp add: a)
  also have "\<dots> = (folded (buf @ [SP] @ trim (dropWhile is_blank c)) (map fst cts),
      raw_lines (ol @ [LF] @ c) (map fst cts), rest)"
    by (rule Cons.IH [OF r])
  finally show ?case by (simp add: a folded_def raw_lines_def)
qed

lemma blank_not_letter: "is_blank c \<Longrightarrow> \<not> isASCIILetter c"
  by (auto simp: is_blank_def isASCIILetter_def is_lower_def)

lemma readContinuedLineSlice_logical:
  assumes "l \<noteq> []" and "line_ok l" and "is_eol t"
    and "\<forall>(c, t) \<in> set cts. blank_start c \<and> line_ok c \<and> is_eol t" and "\<not> blank_start rest"
  shows "readContinuedLineSlice (l @ t @ wire cts @ rest) =
     (folded (trim l) (map fst cts), raw_lines l (map fst cts), None, rest)"
proof -
  have rl: "readLineSlice (l @ t @ wire cts @ rest) = Inr (l, l, wire cts @ rest)"
    by (rule readLineSlice_line [OF assms(2,3)])
  have cl: "continued_loop (trim l) l (wire cts @ rest) =
      (folded (trim l) (map fst cts), raw_lines l (map fst cts), rest)"
    by (rule continued_loop_lines [OF assms(4,5)])
  show ?thesis
  proof (cases "length (wire cts @ rest) > 1 \<and> isASCIILetter (hd (wire cts @ rest))")
    case False
    with assms(1) show ?thesis
      by (auto simp add: readContinuedLineSlice_def rl cl)
  next
    case True
    have c0: "cts = []"
    proof (rule ccontr)
      assume "cts \<noteq> []"
      then obtain c t' cts' where e: "cts = (c, t') # cts'" by (cases cts) auto
      with assms(4) have "blank_start c" by simp
      then have "is_blank (hd (wire cts @ rest))" by (cases c) (auto simp: e blank_start_def)
      with True show False by (simp add: blank_not_letter)
    qed
    from rl have rl0: "readLineSlice (l @ t @ rest) = Inr (l, l, rest)" by (simp add: c0)
    from True assms(1) show ?thesis
      by (simp add: c0 readContinuedLineSlice_def rl0 folded_def raw_lines_def)
  qed
qed

lemma trim_nonempty:
  assumes "l \<noteq> []" and "\<not> blank_start l"
  shows "trim l \<noteq> []"
proof -
  from assms obtain x xs where l: "l = x # xs" and x: "\<not> is_blank x"
    by (cases l) (auto simp: blank_start_def)
  have "dropWhile is_blank (rev xs @ [x]) \<noteq> []"
    using x by (simp add: dropWhile_append)
  then show ?thesis using x by (simp add: trim_def l)
qed

lemma folded_nonempty: "buf \<noteq> [] \<Longrightarrow> folded buf cs \<noteq> []"
  unfolding folded_def by (induction cs arbitrary: buf) auto

lemma foldl_join_line:
  "X \<noteq> [] \<Longrightarrow> foldl join_line X cs = X @ concat (map (\<lambda>c. LF # c) cs)"
  by (induction cs arbitrary: X) (auto simp: join_line_def)

lemma join_line_raw_lines:
  assumes "l \<noteq> []"
  shows "join_line acc (raw_lines l cs) = foldl join_line (join_line acc l) cs"
proof -
  from assms have "join_line acc l \<noteq> []" by (simp add: join_line_def)
  then show ?thesis
    by (simp add: foldl_join_line) (simp add: join_line_def raw_lines_def)
qed

definition header_lines_ok :: "(bytes \<times> bytes) list \<Rightarrow> bool" where
  "header_lines_ok lts =
     ((\<forall>(l, t) \<in> set lts. l \<noteq> [] \<and> line_ok l \<and> is_eol t)
      \<and> (lts = [] \<or> \<not> blank_start (fst (hd lts))))"

lemma header_lines_ok_split:
  assumes "header_lines_ok ((l, t) # lts)"
  shows "l \<noteq> []" "line_ok l" "is_eol t" "\<not> blank_start l"
    "\<forall>(c, t) \<in> set (takeWhile (\<lambda>p. blank_start (fst p)) lts). blank_start c \<and> line_ok c \<and> is_eol t"
    "header_lines_ok (dropWhile (\<lambda>p. blank_start (fst p)) lts)"
proof -
  from assms show "l \<noteq> []" "line_ok l" "is_eol t" "\<not> blank_start l"
    by (auto simp: header_lines_ok_def)
  from assms have all: "\<forall>(l, t) \<in> set lts. l \<noteq> [] \<and> line_ok l \<and> is_eol t"
    by (auto simp: header_lines_ok_def)
  show "\<forall>(c, t) \<in> set (takeWhile (\<lambda>p. blank_start (fst p)) lts). blank_start c \<and> line_ok c \<and> is_eol t"
  proof (clarify)
    fix c t assume m: "(c, t) \<in> set (takeWhile (\<lambda>p. blank_start (fst p)) lts)"
    then have "(c, t) \<in> set lts" by (rule set_takeWhileD [THEN conjunct1])
    moreover from m have "blank_start c" using set_takeWhileD by fastforce
    ultimately show "blank_start c \<and> line_ok c \<and> is_eol t" using all by auto
  qed
  let ?d = "dropWhile (\<lambda>p. blank_start (fst p)) lts"
  have "\<forall>(l, t) \<in> set ?d. l \<noteq> [] \<and> line_ok l \<and> is_eol t"
    using all set_dropWhileD by fastforce
  moreover have "?d = [] \<or> \<not> blank_start (fst (hd ?d))"
    using hd_dropWhile [of "\<lambda>p. blank_start (fst p)" lts] by auto
  ultimately show "header_lines_ok ?d" by (simp add: header_lines_ok_def)
qed

lemma header_lines_ok_not_blank:
  assumes "header_lines_ok lts" and "is_eol t0"
  shows "\<not> blank_start (wire lts @ t0 @ body)"
proof (cases lts)
  case Nil
  with assms(2) show ?thesis by (simp add: is_eol_not_blank)
next
  case (Cons a list)
  obtain l t where a: "a = (l, t)" by (cases a)
  from assms(1) Cons a have "l \<noteq> []" "\<not> blank_start l" by (auto simp: header_lines_ok_def)
  then show ?thesis by (cases l) (auto simp: Cons a blank_start_def)
qed

lemma header_loop_lines:
  assumes "header_lines_ok lts" and "is_eol t0"
    and "header_loop m acc (wire lts @ t0 @ body) = (m', oh, None, rest)"
  shows "oh = join_line (foldl join_line acc (map fst lts)) [] \<and> rest = body"
  using assms(1,3)
proof (induction "length lts" arbitrary: lts m acc rule: less_induct)
  case less
  show ?case
  proof (cases lts)
    case Nil
    have "readLineSlice (t0 @ body) = Inr ([], [], body)"
      using readLineSlice_line [of "[]" t0 body] assms(2) by (simp add: line_ok_def bufSize_def)
    then have "readContinuedLineSlice (t0 @ body) = ([], [], None, body)"
      by (simp add: readContinuedLineSlice_def)
    with less.prems(2) Nil show ?thesis
      by (simp add: header_loop.simps [of m acc "t0 @ body"])
  next
    case (Cons a list)
    obtain l t where a: "a = (l, t)" by (cases a)
    let ?cts = "takeWhile (\<lambda>p. blank_start (fst p)) list"
    let ?more = "dropWhile (\<lambda>p. blank_start (fst p)) list"
    let ?kv = "folded (trim l) (map fst ?cts)"
    let ?ol = "raw_lines l (map fst ?cts)"
    let ?rest = "wire ?more @ t0 @ body"
    note s = header_lines_ok_split [OF less.prems(1) [unfolded Cons a]]
    have w: "wire lts = l @ t @ wire ?cts @ wire ?more"
      by (simp add: Cons a flip: wire_append)
    have rc: "readContinuedLineSlice (wire lts @ t0 @ body) = (?kv, ?ol, None, ?rest)"
      unfolding w using readContinuedLineSlice_logical [OF s(1,2,3,5)
          header_lines_ok_not_blank [OF s(6) assms(2)], of body]
      by simp
    have kv: "?kv \<noteq> []" by (rule folded_nonempty [OF trim_nonempty [OF s(1,4)]])
    have len: "length ?more < length lts"
      using length_dropWhile_le [of "\<lambda>p. blank_start (fst p)" list] by (simp add: Cons)
    have fl: "foldl join_line acc (map fst lts)
        = foldl join_line (join_line acc ?ol) (map fst ?more)"
    proof -
      have "map fst lts = l # map fst ?cts @ map fst ?more"
        by (simp add: Cons a flip: map_append)
      then show ?thesis by (simp add: join_line_raw_lines [OF s(1)])
    qed
    from less.prems(2) rc kv obtain m1 where
      "header_loop m1 (join_line acc ?ol) ?rest = (m', oh, None, rest)"
      by (auto simp: header_loop.simps [of m acc "wire lts @ t0 @ body"] split: if_splits)
    from less.hyps [OF len s(6) this] fl show ?thesis by simp
  qed
qed

text \<open>
  The field names of a header block, as the spec states them: of each line that does not
  start with a space or a tab, the text before the first colon. \<open>join_lines\<close> puts one
  line feed between the lines.
\<close>

definition field_names :: "bytes list \<Rightarrow> string list" where
  "field_names ls = map Split_first (filter (\<lambda>l. \<not> blank_start l) ls)"

fun join_lines :: "bytes list \<Rightarrow> bytes" where
  "join_lines [] = []"
| "join_lines [l] = l"
| "join_lines (l # l' # ls) = l @ LF # join_lines (l' # ls)"

lemma blank_start_Split_first:
  "(HasPrefix (Split_first l) [SP] \<or> HasPrefix (Split_first l) [TAB]) = blank_start l"
  by (cases l) (auto simp: HasPrefix_def Split_first_def blank_start_def is_blank_def)

lemma Trim_empty_cutset: "Trim s [] = s"
  by (simp add: Trim_def TrimLeft_def TrimRight_def)

lemma order_loop_Nil: "order_loop ord raw [] = (ord, raw)"
  by (simp add: order_loop.simps [of ord raw] ReadLine_def bufSize_def)

lemma order_loop_lines:
  assumes "\<forall>l \<in> set ls. l \<noteq> [] \<and> line_ok l"
  shows "order_loop ord raw (concat (map (\<lambda>l. l @ [LF]) ls)) =
     (ord @ field_names ls, foldl join_line raw ls)"
  using assms
proof (induction ls arbitrary: ord raw)
  case Nil
  show ?case by (simp add: order_loop_Nil field_names_def)
next
  case (Cons l ls)
  from Cons.prems have l: "l \<noteq> []" "line_ok l" and r: "\<forall>l \<in> set ls. l \<noteq> [] \<and> line_ok l"
    by auto
  have rl: "ReadLine (l @ [LF] @ concat (map (\<lambda>l. l @ [LF]) ls)) =
      Inr (l, False, concat (map (\<lambda>l. l @ [LF]) ls))"
    by (rule ReadLine_line [OF l(2)]) (simp add: is_eol_def)
  have b: "(\<not> HasPrefix (Split_first l) [SP] \<and> \<not> HasPrefix (Split_first l) [TAB]) = (\<not> blank_start l)"
    using blank_start_Split_first [of l] by blast
  have "order_loop ord raw (concat (map (\<lambda>l. l @ [LF]) (l # ls))) =
      order_loop (if \<not> blank_start l then ord @ [Split_first l] else ord) (join_line raw l)
        (concat (map (\<lambda>l. l @ [LF]) ls))"
    using rl l(1)
    by (simp add: order_loop.simps [of ord raw "l @ LF # concat (map (\<lambda>l. l @ [LF]) ls)"]
        b Trim_empty_cutset join_line_def)
  also have "\<dots> = ((if \<not> blank_start l then ord @ [Split_first l] else ord) @ field_names ls,
      foldl join_line (join_line raw l) ls)"
    by (rule Cons.IH [OF r])
  finally show ?case by (simp add: field_names_def)
qed

lemma concat_LF_shift:
  "l @ concat (map (\<lambda>c. LF # c) ls) @ [LF] = concat (map (\<lambda>l. l @ [LF]) (l # ls))"
  by (induction ls arbitrary: l) auto

lemma foldl_join_line_Cons:
  "X \<noteq> [] \<Longrightarrow> \<forall>l \<in> set ls. l \<noteq> [] \<Longrightarrow> foldl join_line X ls = join_lines (X # ls)"
proof (induction ls arbitrary: X)
  case Nil
  show ?case by simp
next
  case (Cons a ls)
  from Cons.prems have "join_line X a \<noteq> []" "\<forall>l \<in> set ls. l \<noteq> []" "a \<noteq> []"
    by (auto simp: join_line_def)
  from Cons.IH [OF this(1,2)] Cons.prems(1) this(3) show ?case
    by (cases ls) (auto simp: join_line_def)
qed

lemma foldl_join_line_Nil:
  assumes "\<forall>l \<in> set ls. l \<noteq> []"
  shows "foldl join_line [] ls = join_lines ls"
proof (cases ls)
  case Nil
  then show ?thesis by simp
next
  case (Cons l ls')
  with assms have "l \<noteq> []" "\<forall>l \<in> set ls'. l \<noteq> []" by auto
  from foldl_join_line_Cons [OF this] show ?thesis by (simp add: Cons join_line_def)
qed

lemma join_line_final:
  assumes "\<forall>l \<in> set ls. l \<noteq> []"
  shows "join_line (foldl join_line [] ls) [] = concat (map (\<lambda>l. l @ [LF]) ls)"
proof (cases ls)
  case Nil
  then show ?thesis by (simp add: join_line_def)
next
  case (Cons l ls')
  with assms have l: "l \<noteq> []" by simp
  then have "foldl join_line [] ls = l @ concat (map (\<lambda>c. LF # c) ls')"
    by (simp add: Cons join_line_def foldl_join_line)
  with l show ?thesis using concat_LF_shift [of l ls'] by (simp add: Cons join_line_def)
qed

lemma parts_loop_frame:
  assumes "parts_loop E n result idx ps final = Some (Inr m)"
  shows "Header m = Header result \<and> HeaderIsChanged m = HeaderIsChanged result
     \<and> RawOriginalHeader m = RawOriginalHeader result \<and> HeaderOrder m = HeaderOrder result
     \<and> Body m = Body result \<and> BodyMessage m = BodyMessage result \<and> Boundary m = Boundary result
     \<and> Idx m = Idx result \<and> IsDecoded m = IsDecoded result \<and> rfc822Depth m = rfc822Depth result"
  using assms
proof (induction ps arbitrary: result idx)
  case Nil
  then show ?case by (auto split: if_splits)
next
  case (Cons p ps)
  then obtain n' where n: "n = Suc n'" by (cases n) auto
  from Cons.prems obtain newPart where
    "parts_loop E n (set_Parts (Parts result @ [newPart]) result) (Suc idx) ps final = Some (Inr m)"
    by (auto simp: n split: option.splits sum.splits)
  from Cons.IH [OF this] show ?case by (simp add: set_Parts_def)
qed

lemma ReadParts_frame:
  assumes "ReadParts E n result rd = Some (Inr m)"
  shows "Header m = Header result \<and> HeaderIsChanged m = HeaderIsChanged result
     \<and> RawOriginalHeader m = RawOriginalHeader result \<and> HeaderOrder m = HeaderOrder result
     \<and> Idx m = Idx result \<and> rfc822Depth m = rfc822Depth result"
proof (cases "fst (ExtractBoundary E (Header result)) \<noteq> []")
  case True
  with assms obtain ps final where
    "parts_loop E n (set_Boundary (fst (ExtractBoundary E (Header result))) result) 0 ps final
       = Some (Inr m)"
    by (auto simp: ReadParts.simps split: prod.splits)
  from parts_loop_frame [OF this] show ?thesis by (simp add: set_Boundary_def)
next
  case False
  with assms show ?thesis
    by (auto simp: ReadParts.simps set_Body_def set_IsDecoded_def set_BodyMessage_def
        split: sum.splits if_splits option.splits prod.splits)
qed

lemma ReadParts_leaf:
  assumes "ReadParts E n result (body, None) = Some (Inr m)"
    and "fst (ExtractBoundary E (Header result)) = []" and "BodyMessage m = None"
  shows "Body m = body \<and> Parts m = Parts result \<and> IsDecoded m = IsDecoded result
     \<and> Boundary m = Boundary result"
  using assms
  by (auto simp: ReadParts.simps set_Body_def set_IsDecoded_def set_BodyMessage_def ReadAll_def
      split: sum.splits if_splits option.splits prod.splits)

lemma ReadMIMEHeader_lines:
  assumes "header_lines_ok lts" and "is_eol t0"
    and "ReadMIMEHeader (wire lts @ t0 @ body) = (hdr, oh, None, rest)"
  shows "oh = concat (map (\<lambda>l. l @ [LF]) (map fst lts)) \<and> rest = body"
proof -
  define inp where "inp = wire lts @ t0 @ body"
  from header_lines_ok_not_blank [OF assms(1,2), of body]
  have nb: "\<not> (inp \<noteq> [] \<and> (hd inp = SP \<or> hd inp = TAB))"
    by (auto simp: blank_start_def is_blank_def inp_def)
  have "ReadMIMEHeader inp = header_loop [] [] inp"
    unfolding ReadMIMEHeader_def using nb by (simp only: if_False)
  with assms(3) have "header_loop [] [] (wire lts @ t0 @ body) = (hdr, oh, None, rest)"
    by (simp add: inp_def)
  from header_loop_lines [OF assms(1,2) this]
  have "oh = join_line (foldl join_line [] (map fst lts)) []" "rest = body" by auto
  moreover from assms(1) have "\<forall>l \<in> set (map fst lts). l \<noteq> []"
    by (auto simp: header_lines_ok_def)
  ultimately show ?thesis using join_line_final by metis
qed

lemma Decompose_header_lines:
  assumes "header_lines_ok lts" and "is_eol t0"
    and "Decompose E n (wire lts @ t0 @ body) idx = Some (Inr m)"
  shows "RawOriginalHeader m = join_lines (map fst lts)
     \<and> HeaderOrder m = field_names (map fst lts)
     \<and> \<not> HeaderIsChanged m
     \<and> (fst (ExtractBoundary E (Header m)) = [] \<and> BodyMessage m = None
          \<longrightarrow> Body m = body \<and> Parts m = [] \<and> \<not> IsDecoded m)"
proof -
  define ls where "ls = map fst lts"
  from assms(3) obtain n' where n: "n = Suc n'" by (cases n) auto
  obtain hdr oh err rest where rm: "ReadMIMEHeader (wire lts @ t0 @ body) = (hdr, oh, err, rest)"
    by (cases "ReadMIMEHeader (wire lts @ t0 @ body)") auto
  from assms(3) rm have e: "err = None"
    by (cases err) (auto simp: n ReadMessage_def)
  from ReadMIMEHeader_lines [OF assms(1,2) rm [unfolded e]]
  have oh: "oh = concat (map (\<lambda>l. l @ [LF]) ls)" and rest: "rest = body"
    by (auto simp: ls_def)
  from assms(1) have ok: "\<forall>l \<in> set ls. l \<noteq> [] \<and> line_ok l"
    by (auto simp: header_lines_ok_def ls_def)
  then have ne: "\<forall>l \<in> set ls. l \<noteq> []" by auto
  let ?r0 = "Message hdr False (join_lines ls) (field_names ls) [] [] None [] idx False 0"
  have so: "SetOriginalHeaderOrder (Message hdr False [] [] [] [] None [] idx False 0) oh = ?r0"
    unfolding oh SetOriginalHeaderOrder_def
    by (simp add: order_loop_lines [OF ok] foldl_join_line_Nil [OF ne])
  from assms(3) have rp: "ReadParts E n' ?r0 (body, None) = Some (Inr m)"
    by (simp add: n ReadMessage_def rm e so rest)
  from ReadParts_frame [OF rp] have f: "Header m = hdr" "HeaderIsChanged m = False"
    "RawOriginalHeader m = join_lines ls" "HeaderOrder m = field_names ls"
    by auto
  have "Body m = body \<and> Parts m = [] \<and> \<not> IsDecoded m"
    if "fst (ExtractBoundary E (Header m)) = []" "BodyMessage m = None"
    using ReadParts_leaf [OF rp] that f(1) by auto
  with f show ?thesis unfolding ls_def by blast
qed








section \<open>Evaluating the reader on short inputs\<close>

lemma ReadLine_short:
  "length inp < 4096 \<Longrightarrow> ReadLine inp =
     (if LF \<in> set inp
      then (let line = takeWhile (\<lambda>c. c \<noteq> LF) inp
            in Inr (if line \<noteq> [] \<and> last line = CR then butlast line else line,
                    False, tl (dropWhile (\<lambda>c. c \<noteq> LF) inp)))
      else if inp = [] then Inl EOF
      else Inr (inp, False, []))"
  by (simp add: ReadLine_def bufSize_def)

lemmas reader_eval = ReadLine_short readLineSlice_def readLineSlice_loop.simps
  readContinuedLineSlice_def continued_loop.simps skipSpace_def is_blank_def trim_def
  isASCIILetter_def is_lower_def is_upper_def header_loop.simps join_line_def header_key_def
  header_value_def canonicalMIMEHeaderKey_def validHeaderFieldByte_def Header_append_def
  ReadMIMEHeader_def errorPreview_def

lemmas decompose_eval = order_loop.simps Split_first_def HasPrefix_def Trim_def TrimLeft_def
  TrimRight_def SetOriginalHeaderOrder_def ReadMessage_def ExtractBoundary_def ReadAll_def
  Header_Get_def CanonicalMIMEHeaderKey_def validHeaderFieldByte_def is_lower_def is_upper_def
  wants_unwrap_def DecodeByContentEncoding_def ReadParts.simps
  set_Body_def set_BodyMessage_def set_IsDecoded_def set_rfc822Depth_def set_Boundary_def

text \<open>A line that fills the buffer of \<open>ReadLine\<close> exactly.\<close>

lemma ReadLine_full:
  assumes "length l = bufSize" and "LF \<notin> set l" and "last l \<noteq> CR"
  shows "ReadLine (l @ rest) = Inr (l, True, rest)"
  using assms by (simp add: ReadLine_def)

lemma ReadLine_blank: "ReadLine (LF # rest) = Inr ([], False, rest)"
  using ReadLine_LF [of "[]" rest] by (simp add: bufSize_def)

lemma readLineSlice_full:
  assumes "length l = bufSize" and "LF \<notin> set l" and "last l \<noteq> CR"
  shows "readLineSlice (l @ LF # rest) = Inr (l, l @ [LF], rest)"
proof -
  from assms(1) have ne: "l \<noteq> []" by (auto simp: bufSize_def)
  have "readLineSlice (l @ LF # rest) = readLineSlice_loop l l (LF # rest)"
    by (simp add: readLineSlice_def readLineSlice_loop.simps [of "[]" "[]"]
        ReadLine_full [OF assms])
  also have "\<dots> = Inr (l, l @ [LF], rest)"
    using ne by (simp add: readLineSlice_loop.simps [of l l] ReadLine_blank)
  finally show ?thesis .
qed

lemma readContinuedLineSlice_full:
  assumes "length l = bufSize" and "LF \<notin> set l" and "last l \<noteq> CR" and "\<not> blank_start rest"
  shows "readContinuedLineSlice (l @ LF # rest) = (trim l, l @ [LF], None, rest)"
proof -
  from assms(1) have ne: "l \<noteq> []" by (auto simp: bufSize_def)
  show ?thesis
    using ne
    by (simp add: readContinuedLineSlice_def readLineSlice_full [OF assms(1,2,3)]
        continued_loop_stop [OF assms(4)])
qed

lemma trim_id:
  assumes "l \<noteq> []" and "\<not> is_blank (hd l)" and "\<not> is_blank (last l)"
  shows "trim l = l"
proof -
  from assms(1,2) have a: "dropWhile is_blank l = l" by (cases l) auto
  from assms(1,3) have "dropWhile is_blank (rev l) = rev l"
    by (cases l rule: rev_cases) auto
  with a show ?thesis by (simp add: trim_def)
qed

subsection \<open>Example messages\<close>

definition crlf_msg :: bytes where
  "crlf_msg = ''A: 1'' @ CRLF @ ''B: 2'' @ CRLF @ CRLF @ ''hello''"


lemma ReadMIMEHeader_crlf_msg:
  "ReadMIMEHeader crlf_msg =
     ([(''A'', [''1'']), (''B'', [''2''])], ''A: 1'' @ [LF] @ ''B: 2'' @ [LF], None, ''hello'')"
  by (simp add: crlf_msg_def reader_eval)


lemma SetOriginalHeaderOrder_AB: "SetOriginalHeaderOrder (Message h False [] [] [] [] None [] idx False 0)
   (''A: 1'' @ [LF] @ ''B: 2'' @ [LF]) = Message h False (''A: 1'' @ [LF] @ ''B: 2'')
       [''A'', ''B''] [] [] None [] idx False 0"
  by (simp add: SetOriginalHeaderOrder_def order_loop.simps ReadLine_short Split_first_def HasPrefix_def Trim_def TrimLeft_def
  TrimRight_def)

lemma ReadParts_bare_AB: "ReadParts bare_env n (Message [(''A'', [''1'']), (''B'', [''2''])] False raw
       ord [] [] None [] [] False 0) (body, None) =
     Some (Inr (Message [(''A'', [''1'']), (''B'', [''2''])] False raw ord body [] None [] [] False 0))"
  by (simp add: ReadParts.simps ExtractBoundary_def bare_env_def ReadAll_def wants_unwrap_def Header_Get_def
     CanonicalMIMEHeaderKey_def validHeaderFieldByte_def is_lower_def is_upper_def HasPrefix_def Trim_def TrimLeft_def
  TrimRight_def set_Body_def)

lemma Decompose_crlf_msg:
  "Decompose bare_env 2 crlf_msg [] =
     Some (Inr (Message [(''A'', [''1'']), (''B'', [''2''])] False (''A: 1'' @ [LF] @ ''B: 2'')
       [''A'', ''B''] ''hello'' [] None [] [] False 0))"
  using SetOriginalHeaderOrder_AB ReadParts_bare_AB
  by (simp add: numeral_2_eq_2 ReadMessage_def ReadMIMEHeader_crlf_msg)



lemma header_lines_ok_AB:
  "is_eol t \<Longrightarrow> header_lines_ok [(''A: 1'', t), (''B: 2'', t)]"
  by (simp add: header_lines_ok_def line_ok_def bufSize_def blank_start_def is_blank_def)

lemma wire_crlf_msg: "wire [(''A: 1'', CRLF), (''B: 2'', CRLF)] @ CRLF @ ''hello'' = crlf_msg"
  by (simp add: crlf_msg_def)


definition long_line :: bytes where
  "long_line = ''A: '' @ replicate 4093 (CHR ''x'')"

definition long_msg :: bytes where
  "long_msg = long_line @ [LF] @ ''B: 2'' @ [LF, LF] @ ''hello''"

lemma long_line_facts:
  "length long_line = bufSize" "LF \<notin> set long_line" "last long_line \<noteq> CR"
  "trim long_line = long_line" "CHR '':'' \<in> set long_line" "header_key long_line = ''A''"
  "Split_first long_line = ''A''" "long_line \<noteq> []" "\<not> blank_start long_line"
proof -
  show "length long_line = bufSize" by (simp add: long_line_def bufSize_def)
  show "LF \<notin> set long_line" by (simp add: long_line_def)
  show "last long_line \<noteq> CR" by (simp add: long_line_def)
  show "trim long_line = long_line"
    by (rule trim_id) (simp_all add: long_line_def is_blank_def)
  show "CHR '':'' \<in> set long_line" by (simp add: long_line_def)
  show "header_key long_line = ''A''" by (simp add: long_line_def header_key_def)
  show "Split_first long_line = ''A''" by (simp add: long_line_def Split_first_def)
  show "long_line \<noteq> []" by (simp add: long_line_def)
  show "\<not> blank_start long_line" by (simp add: long_line_def blank_start_def is_blank_def)
qed

lemma header_loop_long_tail:
  "header_loop [(''A'', [v])] (long_line @ [LF]) (''B: 2'' @ [LF, LF] @ ''hello'') =
     ([(''A'', [v]), (''B'', [''2''])], long_line @ [LF] @ [LF] @ ''B: 2'' @ [LF], None, ''hello'')"
  by (simp add: reader_eval)

lemma ReadMIMEHeader_long_msg:
  "ReadMIMEHeader long_msg =
     ([(''A'', [header_value long_line]), (''B'', [''2''])],
      long_line @ [LF] @ [LF] @ ''B: 2'' @ [LF], None, ''hello'')"
proof -
  have nb: "\<not> blank_start (''B: 2'' @ [LF, LF] @ ''hello'')"
    by (simp add: blank_start_def is_blank_def)
  have rc: "readContinuedLineSlice long_msg =
      (long_line, long_line @ [LF], None, ''B: 2'' @ [LF, LF] @ ''hello'')"
    using readContinuedLineSlice_full [OF long_line_facts(1,2,3) nb]
    by (simp add: long_msg_def long_line_facts(4))
  have k: "canonicalMIMEHeaderKey (header_key long_line) = ''A''"
    by (simp add: long_line_facts(6) canonicalMIMEHeaderKey_def validHeaderFieldByte_def
        is_lower_def is_upper_def)
  have hd: "hd long_msg = CHR ''A''" by (simp add: long_msg_def long_line_def)
  have "ReadMIMEHeader long_msg = header_loop [] [] long_msg"
    using hd by (simp add: ReadMIMEHeader_def)
  also have "\<dots> =
      header_loop [(''A'', [header_value long_line])] (long_line @ [LF])
        (''B: 2'' @ [LF, LF] @ ''hello'')"
    using long_line_facts(5,8)
    by (simp add: header_loop.simps [of "[]" "[]" long_msg] rc k Header_append_def join_line_def)
  also have "\<dots> = ([(''A'', [header_value long_line]), (''B'', [''2''])],
      long_line @ [LF] @ [LF] @ ''B: 2'' @ [LF], None, ''hello'')"
    by (rule header_loop_long_tail)
  finally show ?thesis .
qed

lemma order_loop_long:
  "order_loop [] [] (long_line @ [LF] @ [LF] @ ''B: 2'' @ [LF]) = ([''A''], long_line)"
proof -
  have b: "\<not> HasPrefix ''A'' [SP]" "\<not> HasPrefix ''A'' [TAB]" by (simp_all add: HasPrefix_def)
  have "order_loop [] [] (long_line @ [LF] @ [LF] @ ''B: 2'' @ [LF]) =
      order_loop [''A''] long_line ([LF] @ [LF] @ ''B: 2'' @ [LF])"
    using long_line_facts(8) b
    by (simp add: order_loop.simps [of "[]" "[]"] ReadLine_full [OF long_line_facts(1,2,3)]
        long_line_facts(7) Trim_empty_cutset)
  also have "\<dots> = ([''A''], long_line)"
    by (simp add: order_loop.simps [of "[''A'']" long_line] ReadLine_blank)
  finally show ?thesis .
qed

lemma Decompose_long_msg:
  "Decompose bare_env 2 long_msg [] =
     Some (Inr (Message [(''A'', [header_value long_line]), (''B'', [''2''])] False long_line
       [''A''] ''hello'' [] None [] [] False 0))"
proof -
  have so: "SetOriginalHeaderOrder
       (Message [(''A'', [header_value long_line]), (''B'', [''2''])] False [] [] [] [] None [] [] False 0)
       (long_line @ [LF] @ [LF] @ ''B: 2'' @ [LF]) =
      Message [(''A'', [header_value long_line]), (''B'', [''2''])] False long_line [''A'']
        [] [] None [] [] False 0"
    by (simp only: SetOriginalHeaderOrder_def order_loop_long Message.sel prod.case)
  have rp: "ReadParts bare_env n
       (Message [(''A'', [v]), (''B'', [''2''])] False raw ord [] [] None [] [] False 0) (body, None) =
      Some (Inr (Message [(''A'', [v]), (''B'', [''2''])] False raw ord body [] None [] [] False 0))"
    for n v raw ord body
    by (simp add: ReadParts.simps ExtractBoundary_def bare_env_def ReadAll_def wants_unwrap_def
        Header_Get_def CanonicalMIMEHeaderKey_def validHeaderFieldByte_def is_lower_def
        is_upper_def HasPrefix_def Trim_def TrimLeft_def TrimRight_def set_Body_def)
  show ?thesis
    using so rp
    by (simp add: numeral_2_eq_2 ReadMessage_def ReadMIMEHeader_long_msg)
qed

section \<open>What decomposition keeps of the header\<close>




text \<open>
  The order of the fields under the same conditions: \<open>HeaderOrder\<close> is the list of the
  field names of the block's lines.
\<close>

theorem HeaderOrder_field_names:
  assumes "header_lines_ok lts" and "is_eol t0"
    and "Decompose E n (wire lts @ t0 @ body) idx = Some (Inr m)"
  shows "HeaderOrder m = field_names (map fst lts)"
  using Decompose_header_lines [OF assms] by blast

theorem HeaderOrder_field_names_witness:
  "\<exists>m. Decompose bare_env 2 crlf_msg [] = Some (Inr m) \<and> HeaderOrder m = [''A'', ''B'']"
proof -
  have e: "is_eol CRLF" by (simp add: is_eol_def)
  note d = Decompose_crlf_msg [folded wire_crlf_msg]
  from HeaderOrder_field_names [OF header_lines_ok_AB [OF e] e d]
  show ?thesis using Decompose_crlf_msg by simp
qed

text \<open>
  C6. A header line of 4096 bytes fills the buffer of \<open>ReadLine\<close>: \<open>readLineSlice\<close> puts a
  line feed after the piece it got, and \<open>SetOriginalHeaderOrder\<close>, reading the raw header
  again, takes the empty rest of that line for the end of the header. For the message
  \<open>long_msg\<close>, whose header block has the lines \<open>A: xxx...\<close> and \<open>B: 2\<close>, the order
  kept is \<open>[A]\<close> and not \<open>[A, B]\<close>, and the raw header kept is the first line alone.
\<close>

theorem HeaderOrder_long_line:
  "\<exists>m. Decompose bare_env 2 long_msg [] = Some (Inr m)
     \<and> HeaderOrder m = [''A'']
     \<and> RawOriginalHeader m = long_line
     \<and> field_names [long_line, ''B: 2''] = [''A'', ''B'']
     \<and> long_msg = wire [(long_line, [LF]), (''B: 2'', [LF])] @ [LF] @ ''hello''"
proof (intro exI conjI)
  show "Decompose bare_env 2 long_msg [] =
     Some (Inr (Message [(''A'', [header_value long_line]), (''B'', [''2''])] False long_line
       [''A''] ''hello'' [] None [] [] False 0))"
    by (rule Decompose_long_msg)
  have "\<not> blank_start ''B: 2''" "Split_first ''B: 2'' = ''B''"
    by (simp_all add: blank_start_def is_blank_def Split_first_def)
  then show "field_names [long_line, ''B: 2''] = [''A'', ''B'']"
    by (simp add: field_names_def long_line_facts(7,9))
  show "long_msg = wire [(long_line, [LF]), (''B: 2'', [LF])] @ [LF] @ ''hello''"
    by (simp add: long_msg_def)
qed simp_all


section \<open>Building what was decomposed\<close>






section \<open>Nested \<open>message/rfc822\<close> messages\<close>

text \<open>
  A chain of nested messages: \<open>chain k\<close> is \<open>k\<close> headers
  \<open>Content-Type: message/rfc822\<close>, each followed by an empty line, around the plain
  message \<open>inner_msg\<close>; so \<open>chain 6\<close> has six levels of nesting around the innermost
  message. \<open>chain_tree k idx\<close> is the tree in which every one of the \<open>k\<close> levels is
  unwrapped into \<open>BodyMessage\<close>, and \<open>unwrapped\<close> counts the \<open>BodyMessage\<close> links
  from the root of a tree.
\<close>

definition rfc_header :: bytes where
  "rfc_header = ''Content-Type: message/rfc822''"

definition inner_msg :: bytes where
  "inner_msg = ''S: x'' @ [LF, LF] @ ''body''"

fun chain :: "nat \<Rightarrow> bytes" where
  "chain 0 = inner_msg"
| "chain (Suc k) = rfc_header @ [LF, LF] @ chain k"

fun chain_tree :: "nat \<Rightarrow> string \<Rightarrow> Message" where
  "chain_tree 0 idx =
     Message [(''S'', [''x''])] False ''S: x'' [''S''] ''body'' [] None [] idx False 0"
| "chain_tree (Suc k) idx =
     Message [(''Content-Type'', [''message/rfc822''])] False rfc_header [''Content-Type''] [] []
       (Some (set_rfc822Depth 1 (chain_tree k (idx @ ''-0'')))) [] idx False 0"

fun unwrapped :: "Message \<Rightarrow> nat" where
  "unwrapped (Message h ch raw ord body ps bm bnd idx dec depth) =
     (case bm of None \<Rightarrow> 0 | Some sub \<Rightarrow> Suc (unwrapped sub))"

lemma unwrapped_set_rfc822Depth [simp]: "unwrapped (set_rfc822Depth d m) = unwrapped m"
  by (cases m) (simp add: set_rfc822Depth_def)

lemma unwrapped_chain_tree: "unwrapped (chain_tree k idx) = k"
  by (induction k arbitrary: idx) auto

lemma ReadMIMEHeader_rfc:
  "ReadMIMEHeader (rfc_header @ [LF, LF] @ rest) =
     ([(''Content-Type'', [''message/rfc822''])], rfc_header @ [LF], None, rest)"
proof -
  have ok: "rfc_header \<noteq> []" "line_ok rfc_header" "is_eol [LF]"
    by (simp_all add: rfc_header_def line_ok_def is_eol_def bufSize_def)
  have nb: "\<not> blank_start (LF # rest)" by (simp add: blank_start_def is_blank_def)
  have t: "trim rfc_header = rfc_header" by (simp add: rfc_header_def trim_def is_blank_def)
  have rc1: "readContinuedLineSlice (rfc_header @ LF # LF # rest) =
      (rfc_header, rfc_header, None, LF # rest)"
    using readContinuedLineSlice_logical [OF ok, of "[]" "LF # rest"] nb
    by (simp add: folded_def raw_lines_def t)
  have rc2: "readContinuedLineSlice (LF # rest) = ([], [], None, rest)"
    using readLineSlice_line [of "[]" "[LF]" rest]
    by (simp add: readContinuedLineSlice_def line_ok_def is_eol_def bufSize_def)
  have k: "canonicalMIMEHeaderKey (header_key rfc_header) = ''Content-Type''"
    "header_value rfc_header = ''message/rfc822''" "CHR '':'' \<in> set rfc_header"
    by (simp_all add: rfc_header_def header_key_def header_value_def canonicalMIMEHeaderKey_def
        validHeaderFieldByte_def is_lower_def is_upper_def is_blank_def Let_def)
  have hd: "hd (rfc_header @ LF # LF # rest) = CHR ''C''" by (simp add: rfc_header_def)
  have "ReadMIMEHeader (rfc_header @ [LF, LF] @ rest) = header_loop [] [] (rfc_header @ LF # LF # rest)"
    using hd ok(1) by (simp add: ReadMIMEHeader_def)
  also have "\<dots> = header_loop [(''Content-Type'', [''message/rfc822''])] rfc_header (LF # rest)"
    using ok(1) k(3)
    by (simp add: header_loop.simps [of "[]" "[]" "rfc_header @ LF # LF # rest"] rc1 k(1,2)
        Header_append_def join_line_def)
  also have "\<dots> = ([(''Content-Type'', [''message/rfc822''])], rfc_header @ [LF], None, rest)"
    using ok(1)
    by (simp add: header_loop.simps [of _ rfc_header "LF # rest"] rc2 join_line_def)
  finally show ?thesis .
qed

lemma SetOriginalHeaderOrder_rfc:
  "SetOriginalHeaderOrder (Message h False [] [] [] [] None [] idx False 0) (rfc_header @ [LF]) =
     Message h False rfc_header [''Content-Type''] [] [] None [] idx False 0"
  by (simp add: rfc_header_def SetOriginalHeaderOrder_def order_loop.simps ReadLine_short
      Split_first_def HasPrefix_def Trim_def TrimLeft_def TrimRight_def)

lemma ReadParts_rfc:
  assumes "fst (ExtractBoundary E [(''Content-Type'', [''message/rfc822''])]) = []"
  shows "ReadParts E n
       (Message [(''Content-Type'', [''message/rfc822''])] False raw ord [] [] None [] idx False 0)
       (rest, None) =
     (case Decompose E n rest (idx @ ''-0'') of
        None \<Rightarrow> None
      | Some (Inl err) \<Rightarrow>
          Some (Inr (Message [(''Content-Type'', [''message/rfc822''])] False raw ord rest [] None []
                  idx False 0))
      | Some (Inr newMessage) \<Rightarrow>
          Some (Inr (Message [(''Content-Type'', [''message/rfc822''])] False raw ord [] []
                  (Some (set_rfc822Depth 1 newMessage)) [] idx False 0)))"
proof -
  have g: "Header_Get [(''Content-Type'', [''message/rfc822''])] ''Content-Type'' = ''message/rfc822''"
    "Header_Get [(''Content-Type'', [''message/rfc822''])] ''Content-Transfer-Encoding'' = []"
    by (simp_all add: Header_Get_def CanonicalMIMEHeaderKey_def validHeaderFieldByte_def
        is_lower_def is_upper_def)
  have w: "wants_unwrap
      (Message [(''Content-Type'', [''message/rfc822''])] False raw ord [] [] None [] idx False 0)"
    by (simp add: wants_unwrap_def g HasPrefix_def Trim_def TrimLeft_def TrimRight_def)
  show ?thesis
    using assms w
    by (simp add: ReadParts.simps ReadAll_def g DecodeByContentEncoding_def set_Body_def
        set_IsDecoded_def set_BodyMessage_def
        split: option.splits sum.splits)
qed

lemma Decompose_inner:
  assumes "fst (ExtractBoundary E [(''S'', [''x''])]) = []"
  shows "Decompose E (Suc n) inner_msg idx = Some (Inr (chain_tree 0 idx))"
proof -
  have rm: "ReadMIMEHeader inner_msg = ([(''S'', [''x''])], ''S: x'' @ [LF], None, ''body'')"
    by (simp add: inner_msg_def reader_eval)
  have so: "SetOriginalHeaderOrder (Message [(''S'', [''x''])] False [] [] [] [] None [] idx False 0)
      (''S: x'' @ [LF]) = Message [(''S'', [''x''])] False ''S: x'' [''S''] [] [] None [] idx False 0"
    by (simp add: SetOriginalHeaderOrder_def order_loop.simps ReadLine_short
        Split_first_def HasPrefix_def Trim_def TrimLeft_def TrimRight_def)
  have g: "Header_Get [(''S'', [''x''])] ''Content-Type'' = []"
    by (simp add: Header_Get_def CanonicalMIMEHeaderKey_def validHeaderFieldByte_def
        is_lower_def is_upper_def)
  have rp: "ReadParts E n (Message [(''S'', [''x''])] False ''S: x'' [''S''] [] [] None [] idx False 0)
      (''body'', None) = Some (Inr (chain_tree 0 idx))"
    using assms
    by (simp add: ReadParts.simps ReadAll_def wants_unwrap_def g HasPrefix_def Trim_def
        TrimLeft_def TrimRight_def set_Body_def)
  show ?thesis
    using so rp by (simp add: ReadMessage_def rm)
qed

lemma Decompose_chain:
  assumes "fst (ExtractBoundary E [(''Content-Type'', [''message/rfc822''])]) = []"
    and "fst (ExtractBoundary E [(''S'', [''x''])]) = []"
  shows "Decompose E (Suc k) (chain k) idx = Some (Inr (chain_tree k idx))"
proof (induction k arbitrary: idx)
  case 0
  show ?case using Decompose_inner [OF assms(2)] by simp
next
  case (Suc k)
  have "Decompose E (Suc (Suc k)) (chain (Suc k)) idx =
      ReadParts E (Suc k)
        (Message [(''Content-Type'', [''message/rfc822''])] False rfc_header [''Content-Type'']
           [] [] None [] idx False 0)
        (chain k, None)"
    using ReadMIMEHeader_rfc [of "chain k"] SetOriginalHeaderOrder_rfc
    by (simp add: ReadMessage_def)
  also have "\<dots> = Some (Inr (chain_tree (Suc k) idx))"
    using Suc.IH [of "idx @ ''-0''"]
    by (simp add: ReadParts_rfc [OF assms(1)] del: Decompose.simps)
  finally show ?case .
qed

text \<open>
  Claim C2 (the depth bound of nested \<open>message/rfc822\<close> messages). \<open>ReadParts\<close>
  tests \<open>rfc822Depth < 5\<close> on the message it fills, but the depth of a nested message
  is assigned after the nested \<open>Decompose\<close> has returned, and every \<open>Decompose\<close>
  starts its message at depth \<open>0\<close>: the test never fails along a chain. With enough
  fuel for its \<open>k\<close> levels, \<open>chain k\<close> is decomposed into \<open>chain_tree k\<close>, with all
  \<open>k\<close> levels unwrapped for every \<open>k\<close>; a chain of six levels is unwrapped six
  times, no level is kept as an opaque body, and every nested message of the result has
  \<open>rfc822Depth = 1\<close>.
\<close>

theorem Decompose_unwraps_every_level:
  "Decompose bare_env (Suc k) (chain k) [] = Some (Inr (chain_tree k []))
   \<and> unwrapped (chain_tree k []) = k
   \<and> Decompose bare_env 7 (chain 6) [] = Some (Inr (chain_tree 6 []))
   \<and> unwrapped (chain_tree 6 []) = 6"
proof -
  have b: "fst (ExtractBoundary bare_env h) = []" for h
    by (simp add: ExtractBoundary_def bare_env_def)
  have "Decompose bare_env (Suc 6) (chain 6) [] = Some (Inr (chain_tree 6 []))"
    by (rule Decompose_chain [OF b b])
  then have "Decompose bare_env 7 (chain 6) [] = Some (Inr (chain_tree 6 []))"
    by (simp del: Decompose.simps chain.simps chain_tree.simps)
  with Decompose_chain [OF b b, of k "[]"] show ?thesis
    by (simp only: unwrapped_chain_tree simp_thms)
qed


section \<open>The content of a node\<close>

text \<open>
  \<open>populated m\<close> counts which of the three contents of a node are present: parts, a
  body, a nested message. \<open>every_node P m\<close> says that \<open>P\<close> holds of \<open>m\<close> and of
  every node below it, through \<open>Parts\<close> and through \<open>BodyMessage\<close>.
\<close>

definition populated :: "Message \<Rightarrow> nat" where
  "populated m =
     (if Parts m \<noteq> [] then 1 else 0) + (if Body m \<noteq> [] then 1 else 0)
       + (if BodyMessage m \<noteq> None then 1 else 0)"

fun every_node :: "(Message \<Rightarrow> bool) \<Rightarrow> Message \<Rightarrow> bool" where
  "every_node P (Message h ch raw ord body ps bm bnd idx dec depth) =
     (P (Message h ch raw ord body ps bm bnd idx dec depth)
      \<and> (\<forall>p \<in> set ps. every_node P p)
      \<and> (case bm of None \<Rightarrow> True | Some sub \<Rightarrow> every_node P sub))"

definition one_content :: "Message \<Rightarrow> bool" where
  "one_content m = (populated m \<le> 1)"

text \<open>
  The three functions of the decomposer call one another, so the invariant is proved of
  the three together, by induction on the fuel: \<open>ReadParts\<close> is given a message with no
  content yet, the loop over the parts a message with neither body nor nested message and
  whose parts read so far satisfy the invariant.
\<close>

definition ReadParts_keeps :: "env \<Rightarrow> nat \<Rightarrow> bool" where
  "ReadParts_keeps E n =
     (\<forall>result rd m. ReadParts E n result rd = Some (Inr m) \<longrightarrow>
        Parts result = [] \<longrightarrow> Body result = [] \<longrightarrow> BodyMessage result = None \<longrightarrow>
        every_node one_content m)"

definition parts_loop_keeps :: "env \<Rightarrow> nat \<Rightarrow> bool" where
  "parts_loop_keeps E n =
     (\<forall>result idx ps final m. parts_loop E n result idx ps final = Some (Inr m) \<longrightarrow>
        Body result = [] \<longrightarrow> BodyMessage result = None \<longrightarrow>
        (\<forall>p \<in> set (Parts result). every_node one_content p) \<longrightarrow> every_node one_content m)"

definition Decompose_keeps :: "env \<Rightarrow> nat \<Rightarrow> bool" where
  "Decompose_keeps E n =
     (\<forall>raw idx m. Decompose E n raw idx = Some (Inr m) \<longrightarrow> every_node one_content m)"

lemma every_node_sel:
  "every_node P m =
     (P m \<and> (\<forall>p \<in> set (Parts m). every_node P p)
      \<and> (case BodyMessage m of None \<Rightarrow> True | Some sub \<Rightarrow> every_node P sub))"
  by (cases m) simp

lemma one_content_set_rfc822Depth:
  "every_node one_content m \<Longrightarrow> every_node one_content (set_rfc822Depth d m)"
  by (cases m) (simp add: set_rfc822Depth_def one_content_def populated_def)

lemma one_content_no_content:
  assumes "Body result = []" and "BodyMessage result = None"
    and "\<forall>p \<in> set (Parts result). every_node one_content p"
  shows "every_node one_content result"
  using assms by (simp add: every_node_sel [of _ result] one_content_def populated_def)

lemma parts_loop_step_keeps:
  assumes "ReadParts_keeps E n"
  shows "parts_loop_keeps E (Suc n)"
proof -
  have "every_node one_content m"
    if "parts_loop E (Suc n) result idx ps final = Some (Inr m)"
      and "Body result = []" and "BodyMessage result = None"
      and "\<forall>p \<in> set (Parts result). every_node one_content p"
    for result idx ps final m
    using that
  proof (induction ps arbitrary: result idx)
    case Nil
    then have "m = result" by (auto split: if_splits)
    with Nil one_content_no_content show ?case by blast
  next
    case (Cons p ps)
    from Cons.prems(1) obtain newPart where
      np: "ReadParts E n (newPartEmail result p (Suc idx)) (part_Body p) = Some (Inr newPart)"
      and pl: "parts_loop E (Suc n) (set_Parts (Parts result @ [newPart]) result) (Suc idx) ps final
         = Some (Inr m)"
      by (auto split: option.splits sum.splits)
    have f: "Parts (newPartEmail result p (Suc idx)) = []"
      "Body (newPartEmail result p (Suc idx)) = []"
      "BodyMessage (newPartEmail result p (Suc idx)) = None"
      by (simp_all add: newPartEmail_def)
    from assms [unfolded ReadParts_keeps_def, rule_format, OF np f]
    have "every_node one_content newPart" .
    with Cons.prems show ?case
      by (intro Cons.IH [OF pl]) (auto simp: set_Parts_def)
  qed
  then show ?thesis unfolding parts_loop_keeps_def by blast
qed

lemma parts_loop_zero_keeps: "parts_loop_keeps E 0"
proof -
  have "every_node one_content m"
    if a: "parts_loop E 0 result idx ps final = Some (Inr m)"
      and b: "Body result = []" "BodyMessage result = None"
      "\<forall>p \<in> set (Parts result). every_node one_content p"
    for result idx ps final m
  proof -
    from a have "ps = []" by (cases ps) auto
    with a have "m = result" by (auto split: if_splits)
    with b one_content_no_content show ?thesis by blast
  qed
  then show ?thesis unfolding parts_loop_keeps_def by blast
qed

lemma ReadParts_cases:
  assumes "ReadParts E n result rd = Some (Inr m)"
  shows "(\<exists>ps final. parts_loop E n (set_Boundary (fst (ExtractBoundary E (Header result))) result)
            0 ps final = Some (Inr m))
     \<or> (\<exists>b. m = set_Body b result)
     \<or> (\<exists>x i nm d k. Decompose E n x i = Some (Inr nm)
           \<and> m = set_IsDecoded d (set_BodyMessage (Some (set_rfc822Depth k nm)) result))"
  using assms
  by (simp add: ReadParts.simps split: sum.splits if_splits option.splits prod.splits) blast+

lemma ReadParts_keeps_from:
  assumes "Decompose_keeps E n" and "parts_loop_keeps E n"
  shows "ReadParts_keeps E n"
proof -
  have "every_node one_content m"
    if r: "ReadParts E n result rd = Some (Inr m)"
      and e: "Parts result = []" "Body result = []" "BodyMessage result = None"
    for result rd m
  proof -
    from ReadParts_cases [OF r] consider
      (multi) ps final where
        "parts_loop E n (set_Boundary (fst (ExtractBoundary E (Header result))) result) 0 ps final
           = Some (Inr m)"
      | (leaf) b where "m = set_Body b result"
      | (nested) x i nm d k where "Decompose E n x i = Some (Inr nm)"
          "m = set_IsDecoded d (set_BodyMessage (Some (set_rfc822Depth k nm)) result)"
      by blast
    then show ?thesis
    proof cases
      case multi
      with assms(2) e show ?thesis
        unfolding parts_loop_keeps_def by (auto simp: set_Boundary_def)
    next
      case leaf
      with e show ?thesis
        by (simp add: every_node_sel [of _ "set_Body b result"] set_Body_def one_content_def
            populated_def)
    next
      case nested
      from assms(1) nested(1) have "every_node one_content nm"
        unfolding Decompose_keeps_def by blast
      from one_content_set_rfc822Depth [OF this, of k] e show ?thesis
        unfolding nested(2)
        by (simp add: every_node_sel [of _ "set_IsDecoded d (set_BodyMessage (Some (set_rfc822Depth k nm)) result)"]
            set_IsDecoded_def set_BodyMessage_def one_content_def populated_def)
    qed
  qed
  then show ?thesis unfolding ReadParts_keeps_def by blast
qed

lemma Decompose_step_keeps:
  assumes "ReadParts_keeps E n"
  shows "Decompose_keeps E (Suc n)"
proof -
  have "every_node one_content m" if "Decompose E (Suc n) raw idx = Some (Inr m)" for raw idx m
  proof -
    from that obtain hdr body oh where
      "ReadParts E n (SetOriginalHeaderOrder (Message hdr False [] [] [] [] None [] idx False 0) oh)
         (body, None) = Some (Inr m)"
      by (auto split: sum.splits prod.splits)
    with assms show ?thesis
      unfolding ReadParts_keeps_def
      by (auto simp: SetOriginalHeaderOrder_def split: prod.splits)
  qed
  then show ?thesis unfolding Decompose_keeps_def by blast
qed

lemma decomposer_keeps:
  "Decompose_keeps E n \<and> parts_loop_keeps E n \<and> ReadParts_keeps E n"
proof (induction n)
  case 0
  have "Decompose_keeps E 0" by (simp add: Decompose_keeps_def)
  with parts_loop_zero_keeps ReadParts_keeps_from show ?case by blast
next
  case (Suc n)
  then have "Decompose_keeps E (Suc n)" "parts_loop_keeps E (Suc n)"
    using Decompose_step_keeps parts_loop_step_keeps by blast+
  with ReadParts_keeps_from show ?case by blast
qed

text \<open>
  Claim C9 (at most one content per node). In every message that \<open>Decompose\<close> returns,
  every node (the root, every part at every depth, every nested message) has at most one
  of: a non-empty list of parts, a non-empty body, a nested message. The loop of
  \<open>ReadParts\<close> over the parts keeps it: from a message with neither body nor nested
  message, whose parts read so far satisfy it, the message it returns satisfies it at
  every node.
\<close>

theorem Decompose_one_content:
  "(Decompose E n rawMessage partIdx = Some (Inr m) \<longrightarrow> every_node one_content m)
   \<and> (parts_loop E n result idx ps final = Some (Inr m') \<longrightarrow>
        Body result = [] \<longrightarrow> BodyMessage result = None \<longrightarrow>
        (\<forall>p \<in> set (Parts result). every_node one_content p) \<longrightarrow>
        every_node one_content m')"
  using decomposer_keeps [of E n] unfolding Decompose_keeps_def parts_loop_keeps_def by blast

definition text_part :: part where
  "text_part = \<lparr>part_Header = [(''X'', [''1''])], part_RawOriginalHeader = ''X: 1'',
     part_Body = (''one'', None)\<rparr>"

definition text_part_msg :: Message where
  "text_part_msg = Message [(''X'', [''1''])] False ''X: 1'' [] ''one'' [] None [] ''1'' False 0"

lemma parts_loop_text_part:
  "parts_loop bare_env 1 empty_Message 0 [text_part] EOF =
     Some (Inr (set_Parts [text_part_msg] empty_Message))"
proof -
  have "FormatInt 1 = ''1''" by code_simp
  then show ?thesis
    by (simp add: ReadParts.simps text_part_def text_part_msg_def newPartEmail_def
        empty_Message_def ExtractBoundary_def bare_env_def ReadAll_def wants_unwrap_def
        Header_Get_def CanonicalMIMEHeaderKey_def validHeaderFieldByte_def is_lower_def
        is_upper_def HasPrefix_def Trim_def TrimLeft_def TrimRight_def set_Body_def
        set_Parts_def)
qed

theorem Decompose_one_content_witness:
  "Decompose bare_env 2 (chain 1) [] = Some (Inr (chain_tree 1 []))
   \<and> every_node one_content (chain_tree 1 [])
   \<and> BodyMessage (chain_tree 1 []) \<noteq> None
   \<and> parts_loop bare_env 1 empty_Message 0 [text_part] EOF =
       Some (Inr (set_Parts [text_part_msg] empty_Message))
   \<and> every_node one_content (set_Parts [text_part_msg] empty_Message)"
proof -
  have b: "fst (ExtractBoundary bare_env h) = []" for h
    by (simp add: ExtractBoundary_def bare_env_def)
  have d: "Decompose bare_env 2 (chain 1) [] = Some (Inr (chain_tree 1 []))"
    using Decompose_chain [OF b b, of 1 "[]"]
    by (simp add: numeral_2_eq_2 del: Decompose.simps chain.simps chain_tree.simps)
  have e: "Body empty_Message = []" "BodyMessage empty_Message = None"
    "\<forall>p \<in> set (Parts empty_Message). every_node one_content p"
    by (simp_all add: empty_Message_def)
  from Decompose_one_content [where E = bare_env and n = 2 and rawMessage = "chain 1"
      and partIdx = "[]" and m = "chain_tree 1 []"]
  have 1: "every_node one_content (chain_tree 1 [])"
    using d by (simp del: Decompose.simps chain.simps chain_tree.simps)
  from Decompose_one_content [where E = bare_env and n = 1 and result = empty_Message
      and idx = 0 and ps = "[text_part]" and final = EOF
      and m' = "set_Parts [text_part_msg] empty_Message"]
  have 2: "every_node one_content (set_Parts [text_part_msg] empty_Message)"
    using parts_loop_text_part e by (simp del: parts_loop.simps)
  have 3: "BodyMessage (chain_tree 1 []) \<noteq> None" by simp
  from d 1 2 3 parts_loop_text_part show ?thesis by (simp only: simp_thms)
qed


section \<open>The delimiter lines of a multipart body\<close>

text \<open>Lines of a byte sequence, split at line feeds (for counting delimiter lines).\<close>

fun split_lines :: "bytes \<Rightarrow> bytes list" where
  "split_lines [] = [[]]"
| "split_lines (c # cs) =
     (if c = LF then [] # split_lines cs
      else (case split_lines cs of l # ls \<Rightarrow> (c # l) # ls | [] \<Rightarrow> [[c]]))"

definition count_lines :: "bytes \<Rightarrow> bytes \<Rightarrow> nat" where
  "count_lines l s = length (filter (\<lambda>x. x = l) (split_lines s))"

text \<open>
  A part with a raw header, a body and nothing else, and a multipart message of three
  such parts with the boundary \<open>abc\<close>.
\<close>

definition leaf_part :: "bytes \<Rightarrow> bytes \<Rightarrow> Message" where
  "leaf_part raw body = Message [] False raw [] body [] None [] [] False 0"

definition three_parts :: Message where
  "three_parts =
     Message [(''Content-Type'', [''multipart/mixed; boundary=abc''])] False
       ''Content-Type: multipart/mixed; boundary=abc'' [''Content-Type''] [] 
       [leaf_part ''X: 1'' ''one'', leaf_part ''X: 2'' ''two'', leaf_part ''X: 3'' ''three'']
       None ''abc'' [] False 0"

lemma Build_leaf_part:
  "Build E nl (leaf_part raw body) r =
     (BuildHeader nl (leaf_part raw body) @ nl @ nl @ body, leaf_part raw body, r)"
  by (simp add: leaf_part_def)

text \<open>
  Claim C4 (the delimiter lines of a message of three parts with boundary \<open>abc\<close>).
  \<open>BuildBody\<close> writes, for each part, a line terminator, \<open>--abc\<close>, a line terminator
  and the part as \<open>Build\<close> makes it, with a line terminator between two parts, and after
  the last part a line terminator, \<open>--abc--\<close> and a line terminator: three delimiter
  lines \<open>--abc\<close>, one before each part, and one closing line \<open>--abc--\<close>.
\<close>

theorem BuildBody_three_parts:
  "fst (BuildBody E nl (Message h ch raw ord body [p1, p2, p3] None ''abc'' idx dec depth) r) =
     (case Build E nl p1 r of (b1, p1', r1) \<Rightarrow>
      case Build E nl p2 r1 of (b2, p2', r2) \<Rightarrow>
      case Build E nl p3 r2 of (b3, p3', r3) \<Rightarrow>
        body @ (nl @ ''--abc'' @ nl) @ b1
          @ nl @ (nl @ ''--abc'' @ nl) @ b2
          @ nl @ (nl @ ''--abc'' @ nl) @ b3
          @ (nl @ ''--abc--'' @ nl))"
  by (simp split: prod.splits)

theorem BuildBody_three_parts_witness:
  "fst (BuildBody bare_env [LF] three_parts 0) =
     [LF] @ ''--abc'' @ [LF] @ ''X: 1'' @ [LF, LF] @ ''one''
     @ [LF, LF] @ ''--abc'' @ [LF] @ ''X: 2'' @ [LF, LF] @ ''two''
     @ [LF, LF] @ ''--abc'' @ [LF] @ ''X: 3'' @ [LF, LF] @ ''three''
     @ [LF] @ ''--abc--'' @ [LF]"
  using BuildBody_three_parts [of bare_env "[LF]" "[(''Content-Type'', [''multipart/mixed; boundary=abc''])]"
      False "''Content-Type: multipart/mixed; boundary=abc''" "[''Content-Type'']" "[]"
      "leaf_part ''X: 1'' ''one''" "leaf_part ''X: 2'' ''two''" "leaf_part ''X: 3'' ''three''"
      "[]" False 0 0]
  by (simp add: three_parts_def Build_leaf_part BuildHeader_def leaf_part_def TrimRight_def)

theorem BuildBody_three_parts_counterexample:
  "count_lines ''--abc'' (fst (BuildBody bare_env [LF] three_parts 0)) = 3
   \<and> count_lines ''--abc--'' (fst (BuildBody bare_env [LF] three_parts 0)) = 1
   \<and> Boundary three_parts = ''abc'' \<and> length (Parts three_parts) = 3"
  by (simp add: three_parts_def leaf_part_def BuildHeader_def TrimRight_def count_lines_def)


section \<open>Encoding and decoding a body\<close>

text \<open>
  \<open>EncodeByContentEncoding\<close> makes its buffer with \<open>bytes.NewBuffer(body)\<close>, whose
  initial content is \<open>body\<close>, and the quoted-printable writer appends to it: the result
  is the body followed by its encoding.
\<close>

lemma Encode_quoted_printable:
  "EncodeByContentEncoding E body ''quoted-printable'' = body @ qp_Write E body"
  by (simp add: EncodeByContentEncoding_def)

text \<open>
  Claim C7 (decoding what was encoded), for quoted-printable. Of the codec only this is
  used: it writes \<open>a\<close> and \<open>aa\<close> as they are (they are printable) and reads its own
  \<open>aa\<close> back. Then encoding the one byte \<open>a\<close> and decoding the result gives the two
  bytes \<open>aa\<close>, without error.
\<close>

theorem quoted_printable_round_trip_doubles:
  assumes "qp_Write E ''a'' = ''a''" and "qp_Write E ''aa'' = ''aa''"
    and "qp_Read E (qp_Write E ''aa'') = Inr ''aa''"
  shows "EncodeByContentEncoding E ''a'' ''quoted-printable'' = ''aa''
     \<and> DecodeByContentEncoding E (EncodeByContentEncoding E ''a'' ''quoted-printable'')
           ''quoted-printable'' = Inr (''aa'', True)
     \<and> DecodeByContentEncoding E (EncodeByContentEncoding E ''a'' ''quoted-printable'')
           ''quoted-printable'' \<noteq> Inr (''a'', True)"
  using assms by (simp add: Encode_quoted_printable DecodeByContentEncoding_def)

theorem quoted_printable_round_trip_doubles_witness:
  "qp_Write bare_env ''a'' = ''a'' \<and> qp_Write bare_env ''aa'' = ''aa''
   \<and> qp_Read bare_env (qp_Write bare_env ''aa'') = Inr ''aa''
   \<and> DecodeByContentEncoding bare_env (EncodeByContentEncoding bare_env ''a'' ''quoted-printable'')
           ''quoted-printable'' = Inr (''aa'', True)"
proof -
  have c: "qp_Write bare_env ''a'' = ''a''" "qp_Write bare_env ''aa'' = ''aa''"
    "qp_Read bare_env (qp_Write bare_env ''aa'') = Inr ''aa''"
    by (simp_all add: bare_env_def)
  from quoted_printable_round_trip_doubles [OF c] c show ?thesis by blast
qed

end
